theory Spec2Isabelle
  imports Main "HOL-Library.Word"
begin

section \<open>Texts and the record extractor\<close>

text \<open>
  A Python \<^verbatim>\<open>str\<close> is a sequence of code points; a code point is a natural number here.
  The file is read in text mode, so the extractor works on code points, never on bytes.
\<close>

type_synonym str = "nat list"
type_synonym byte = "8 word"

definition hyphen :: nat where
  "hyphen = 45"

definition hyphens :: str where
  "hyphens = [hyphen, hyphen, hyphen, hyphen]"

text \<open>
  \<^verbatim>\<open>re.findall(r'(\d+)----(\d+)', content)\<close>, line 57 of \<^verbatim>\<open>data_importer.py\<close>.

  On a \<^verbatim>\<open>str\<close> pattern \<^verbatim>\<open>\d\<close> matches every code point of Unicode category Nd. That table
  belongs to the Python runtime, not to the repository, so the class is the parameter
  \<open>dg\<close> of the functions below.

  The matcher is the backtracking one of \<^verbatim>\<open>re\<close>, written out for this pattern. The
  second group ends the pattern: greedy, it takes the longest run of digits and succeeds
  when that run is not empty (\<open>match_rest\<close>). The first group is greedy as well: it
  first takes the longest run, and on failure of what follows gives back one digit at a
  time, down to one digit (\<open>backtrack\<close>).
\<close>

definition match_rest :: "(nat \<Rightarrow> bool) \<Rightarrow> str \<Rightarrow> (str \<times> str) option" where
  "match_rest dg s =
     (if take 4 s = hyphens then
        (let g2 = takeWhile dg (drop 4 s) in
         if g2 = [] then None else Some (g2, dropWhile dg (drop 4 s)))
      else None)"

fun backtrack :: "(nat \<Rightarrow> bool) \<Rightarrow> str \<Rightarrow> nat \<Rightarrow> (str \<times> str \<times> str) option" where
  "backtrack dg s 0 = None"
| "backtrack dg s (Suc n) =
     (case match_rest dg (drop (Suc n) s) of
        Some (g2, rest) \<Rightarrow> Some (take (Suc n) s, g2, rest)
      | None \<Rightarrow> backtrack dg s n)"

definition match_at :: "(nat \<Rightarrow> bool) \<Rightarrow> str \<Rightarrow> (str \<times> str \<times> str) option" where
  "match_at dg s = backtrack dg s (length (takeWhile dg s))"

lemma match_rest_shorter:
  "match_rest dg s = Some (g2, rest) \<Longrightarrow> length rest \<le> length s"
  by (auto simp: match_rest_def Let_def length_dropWhile_le le_diff_conv
           intro: order_trans [OF length_dropWhile_le]
           split: if_splits)

lemma backtrack_shorter:
  "backtrack dg s n = Some (g1, g2, rest) \<Longrightarrow> length rest < length s"
proof (induction n)
  case 0
  then show ?case by simp
next
  case (Suc n)
  show ?case
  proof (cases "match_rest dg (drop (Suc n) s)")
    case None
    with Suc show ?thesis by simp
  next
    case (Some p)
    obtain g r where p: "p = (g, r)" by (cases p)
    from Some p Suc.prems have r: "rest = r" by simp
    from Some p have "match_rest dg (drop (Suc n) s) = Some (g, r)" by simp
    then have "length r \<le> length (drop (Suc n) s)"
      by (rule match_rest_shorter)
    moreover from Some p have "drop (Suc n) s \<noteq> []"
      by (auto simp: match_rest_def hyphens_def split: if_splits)
    ultimately show ?thesis using r by auto
  qed
qed

lemma match_at_shorter:
  "match_at dg s = Some (g1, g2, rest) \<Longrightarrow> length rest < length s"
  unfolding match_at_def by (rule backtrack_shorter)

text \<open>
  The scan of \<^verbatim>\<open>findall\<close>: try the pattern at the current position; on a match emit the
  two groups and go on from the end of the match (a match is never empty), otherwise
  move one code point to the right. At the end of the text there is nothing to match.
\<close>

function findall :: "(nat \<Rightarrow> bool) \<Rightarrow> str \<Rightarrow> (str \<times> str) list" where
  "findall dg [] = []"
| "findall dg (c # cs) =
     (case match_at dg (c # cs) of
        Some (g1, g2, rest) \<Rightarrow> (g1, g2) # findall dg rest
      | None \<Rightarrow> findall dg cs)"
  by pat_completeness auto
termination
  by (relation "measure (\<lambda>(dg, s). length s)") (auto dest: match_at_shorter)

section \<open>The world outside the script\<close>

text \<open>
  What \<^verbatim>\<open>open(file_path, 'r', encoding='utf-8', errors='ignore')\<close> and \<^verbatim>\<open>f.read()\<close>
  can do with a path that \<^verbatim>\<open>glob\<close> returned: give the bytes of the file, raise
  \<^verbatim>\<open>FileNotFoundError\<close> (the entry is a dangling link, or was removed after the glob), or
  raise another \<^verbatim>\<open>OSError\<close> (no permission, the entry is a directory, an I/O error).
\<close>

datatype source_file = Readable "byte list" | Missing | Unreadable

text \<open>A directory: its entries in the order in which the operating system lists them.\<close>

type_synonym directory = "(string \<times> source_file) list"

text \<open>
  The database file \<^verbatim>\<open>uid_phone_map.db\<close>: the table \<^verbatim>\<open>user_mapping\<close>, whose column
  \<^verbatim>\<open>uid\<close> is its primary key, so the table is a map from \<^verbatim>\<open>uid\<close> to \<^verbatim>\<open>phone_number\<close>;
  whether the table exists; whether the index \<^verbatim>\<open>idx_phone_number\<close> exists.
\<close>

record db =
  rows :: "str \<rightharpoonup> str"
  has_table :: bool
  has_index :: bool

text \<open>
  Everything a run depends on and does not change:
  \<^item> \<open>is_decimal\<close>: the class \<^verbatim>\<open>\d\<close> of the runtime;
  \<^item> \<open>decode\<close>: the text that reading a file in text mode with \<^verbatim>\<open>encoding='utf-8'\<close> and
    \<^verbatim>\<open>errors='ignore'\<close> gives for its bytes. The codec is the runtime's; with
    \<^verbatim>\<open>errors='ignore'\<close> it never raises, so it is a total function;
  \<^item> \<open>data_dir\<close>: the directory \<^verbatim>\<open>DATA_DIR\<close>, \<open>None\<close> when it does not exist;
  \<^item> \<open>cwd\<close>: the current working directory, \<open>None\<close> when it does not exist (it has been
    removed since the process entered it). The database file, whose path is relative,
    is in this directory;
  \<^item> \<open>fault\<close>: the storage engine's failures. \<open>fault W n\<close> says that the call number
    \<open>n\<close> (from 0) that the run makes to \<^verbatim>\<open>sqlite3\<close> raises \<^verbatim>\<open>sqlite3.Error\<close>.
\<close>

record world =
  is_decimal :: "nat \<Rightarrow> bool"
  decode :: "byte list \<Rightarrow> str"
  data_dir :: "directory option"
  cwd :: "directory option"
  fault :: "nat \<Rightarrow> bool"

section \<open>The state of a run\<close>

datatype py_exception = SqliteError | FileNotFoundError | OtherOSError

datatype signal = Normal | Return | Raise py_exception

text \<open>The lines the script prints, in the order of the source.\<close>

datatype message =
    Connecting
  | SchemaCreated
  | NoFilesInDataDir
  | NoFilesInCwd
  | ProcessingFile string
  | ImportedSoFar nat
  | ImportComplete nat
  | SQLiteErrorMsg
  | DirectoryNotFound

text \<open>The variable \<^verbatim>\<open>conn\<close>: \<^verbatim>\<open>None\<close>, an open connection, or a closed one.\<close>

datatype connection = NoConn | Open | Closed

text \<open>
  \<open>disk\<close> is the committed content of the database file; \<open>txn\<close> is the table as the
  open transaction sees it (\<open>None\<close>: no transaction is open); \<open>calls\<close> counts the calls
  made to the storage engine. The other fields are the variables of the script and its
  standard output. A state outlives an exception: what was printed and written before
  the \<^verbatim>\<open>raise\<close> stays.
\<close>

record state =
  disk :: db
  txn :: "(str \<rightharpoonup> str) option"
  calls :: nat
  conn :: connection
  stdout :: "message list"
  batch_data :: "(str \<times> str) list"
  total_records :: nat

type_synonym step = "state \<Rightarrow> signal \<times> state"

text \<open>Sequencing: the second statement runs when the first completes normally.\<close>

definition and_then :: "step \<Rightarrow> step \<Rightarrow> step" where
  "and_then a b s = (let (sig, s') = a s in if sig = Normal then b s' else (sig, s'))"

text \<open>A \<^verbatim>\<open>for\<close> loop: an exception or a \<^verbatim>\<open>return\<close> in its body leaves the loop.\<close>

fun for_each :: "('a \<Rightarrow> step) \<Rightarrow> 'a list \<Rightarrow> step" where
  "for_each body [] s = (Normal, s)"
| "for_each body (x # xs) s =
     (let (sig, s') = body x s in if sig = Normal then for_each body xs s' else (sig, s'))"

definition say :: "message \<Rightarrow> state \<Rightarrow> state" where
  "say m s = s\<lparr>stdout := stdout s @ [m]\<rparr>"

definition print :: "message \<Rightarrow> step" where
  "print m s = (Normal, say m s)"

section \<open>The store\<close>

text \<open>
  A call to the storage engine: it is counted, and it raises \<^verbatim>\<open>sqlite3.Error\<close> when the
  world says so; otherwise it has its effect.
\<close>

definition storage_call :: "world \<Rightarrow> (state \<Rightarrow> state) \<Rightarrow> step" where
  "storage_call W effect s =
     (if fault W (calls s) then (Raise SqliteError, s\<lparr>calls := Suc (calls s)\<rparr>)
      else (Normal, effect (s\<lparr>calls := Suc (calls s)\<rparr>)))"

text \<open>
  \<^verbatim>\<open>sqlite3.connect(DATABASE_FILE)\<close>, line 34. \<^verbatim>\<open>DATABASE_FILE\<close> (line 12) is a relative path:
  the file is opened, and created when it is not there, in the current working
  directory. When that directory does not exist the file cannot be opened, and the call
  raises \<^verbatim>\<open>sqlite3.OperationalError\<close>, which is a \<^verbatim>\<open>sqlite3.Error\<close>; \<^verbatim>\<open>conn\<close> stays \<^verbatim>\<open>None\<close>.
\<close>

definition sqlite3_connect :: "world \<Rightarrow> step" where
  "sqlite3_connect W s =
     (if cwd W = None then (Raise SqliteError, s\<lparr>calls := Suc (calls s)\<rparr>)
      else storage_call W (\<lambda>s. s\<lparr>conn := Open\<rparr>) s)"

text \<open>
  \<^verbatim>\<open>CREATE TABLE IF NOT EXISTS\<close> and \<^verbatim>\<open>CREATE INDEX IF NOT EXISTS\<close>: the module opens no
  transaction for them, so they reach the file at once; the rows stay as they are.
\<close>

definition execute_create_table :: "world \<Rightarrow> step" where
  "execute_create_table W = storage_call W (\<lambda>s. s\<lparr>disk := (disk s)\<lparr>has_table := True\<rparr>\<rparr>)"

definition execute_create_index :: "world \<Rightarrow> step" where
  "execute_create_index W = storage_call W (\<lambda>s. s\<lparr>disk := (disk s)\<lparr>has_index := True\<rparr>\<rparr>)"

text \<open>
  \<^verbatim>\<open>INSERT OR REPLACE INTO user_mapping (uid, phone_number) VALUES (?, ?)\<close> for one row:
  a row with the same \<^verbatim>\<open>uid\<close> is replaced.
\<close>

definition insert_or_replace :: "(str \<rightharpoonup> str) \<Rightarrow> str \<times> str \<Rightarrow> (str \<rightharpoonup> str)" where
  "insert_or_replace t r = t(fst r \<mapsto> snd r)"

text \<open>
  \<^verbatim>\<open>conn.executemany\<close>: the statement once for each row of the batch, in order, inside
  the transaction that the module opens before the first \<^verbatim>\<open>INSERT\<close>. When the call
  raises, the rows it had written stay in a transaction that is never committed (the run
  ends, and \<open>close\<close> drops it), so the model leaves the transaction as it was.
\<close>

definition executemany :: "world \<Rightarrow> (str \<times> str) list \<Rightarrow> step" where
  "executemany W batch =
     storage_call W (\<lambda>s. s\<lparr>txn :=
       Some (foldl insert_or_replace (case txn s of None \<Rightarrow> rows (disk s) | Some t \<Rightarrow> t) batch)\<rparr>)"

definition commit :: "world \<Rightarrow> step" where
  "commit W =
     storage_call W (\<lambda>s. case txn s of
        None \<Rightarrow> s
      | Some t \<Rightarrow> s\<lparr>disk := (disk s)\<lparr>rows := t\<rparr>, txn := None\<rparr>)"

text \<open>
  \<^verbatim>\<open>if conn: conn.close()\<close>: an open transaction is rolled back. Closing a connection and
  printing a line are taken not to fail.
\<close>

definition close :: "state \<Rightarrow> state" where
  "close s = (if conn s = Open then s\<lparr>conn := Closed, txn := None\<rparr> else s)"

definition setup_database :: "world \<Rightarrow> step" where
  "setup_database W =
     and_then (execute_create_table W)
       (and_then (execute_create_index W)
         (and_then (commit W) (print SchemaCreated)))"

section \<open>The importer\<close>

text \<open>
  \<^verbatim>\<open>glob.glob(os.path.join(dir, 'qb*.txt'))\<close>: the entries of the directory whose name
  starts with \<^verbatim>\<open>qb\<close> and ends with \<^verbatim>\<open>.txt\<close>, in the order of the directory; the empty
  list, and no exception, when the directory does not exist. Each result stands for the
  path together with what opening it gives.
\<close>

definition fnmatch_qb_txt :: "string \<Rightarrow> bool" where
  "fnmatch_qb_txt name =
     (6 \<le> length name \<and> take 2 name = ''qb'' \<and> drop (length name - 4) name = ''.txt'')"

definition glob_qb_txt :: "directory option \<Rightarrow> (string \<times> source_file) list" where
  "glob_qb_txt d =
     (case d of None \<Rightarrow> [] | Some entries \<Rightarrow> filter (\<lambda>e. fnmatch_qb_txt (fst e)) entries)"

text \<open>Lines 59 to 68: one pair of the extractor.\<close>

definition process_record :: "world \<Rightarrow> nat \<Rightarrow> str \<times> str \<Rightarrow> step" where
  "process_record W batch_size r s =
     (case r of (phone, uid) \<Rightarrow>
        (let s1 = s\<lparr>batch_data := batch_data s @ [(uid, phone)],
                     total_records := total_records s + 1\<rparr>
         in if batch_size \<le> length (batch_data s1) then
              and_then (executemany W (batch_data s1))
                (and_then (commit W)
                  (\<lambda>s2. (Normal, (say (ImportedSoFar (total_records s2)) s2)\<lparr>batch_data := []\<rparr>))) s1
            else (Normal, s1)))"

text \<open>Lines 50 to 68: one file.\<close>

definition process_file :: "world \<Rightarrow> nat \<Rightarrow> string \<times> source_file \<Rightarrow> step" where
  "process_file W batch_size e s =
     (let s1 = say (ProcessingFile (fst e)) s in
      case snd e of
        Missing \<Rightarrow> (Raise FileNotFoundError, s1)
      | Unreadable \<Rightarrow> (Raise OtherOSError, s1)
      | Readable bytes \<Rightarrow>
          for_each (process_record W batch_size)
            (findall (is_decimal W) (decode W bytes)) s1)"

text \<open>Lines 70 to 72: the last, partial batch.\<close>

definition flush_remainder :: "world \<Rightarrow> step" where
  "flush_remainder W s =
     (if batch_data s \<noteq> [] then and_then (executemany W (batch_data s)) (commit W) s
      else (Normal, s))"

text \<open>Lines 46 to 74.\<close>

definition import_files :: "world \<Rightarrow> nat \<Rightarrow> (string \<times> source_file) list \<Rightarrow> step" where
  "import_files W batch_size all_files s =
     and_then (for_each (process_file W batch_size) all_files)
       (and_then (flush_remainder W)
         (\<lambda>s'. print (ImportComplete (total_records s')) s'))
       (s\<lparr>total_records := 0, batch_data := []\<rparr>)"

text \<open>Lines 37 to 74: the two globs, and the import of the files found.\<close>

definition find_and_import :: "world \<Rightarrow> nat \<Rightarrow> step" where
  "find_and_import W batch_size s =
     (let all_files = glob_qb_txt (data_dir W) in
      if all_files = [] then
        (let s1 = say NoFilesInDataDir s;
             all_files = glob_qb_txt (cwd W)
         in if all_files = [] then (Return, say NoFilesInCwd s1)
            else import_files W batch_size all_files s1)
      else import_files W batch_size all_files s)"

text \<open>Lines 34 to 74: the body of the \<^verbatim>\<open>try\<close>.\<close>

definition try_body :: "world \<Rightarrow> nat \<Rightarrow> step" where
  "try_body W batch_size =
     and_then (sqlite3_connect W)
       (and_then (setup_database W) (find_and_import W batch_size))"

text \<open>
  How the process ends: the function returns and the interpreter exits with status 0;
  \<^verbatim>\<open>sys.exit(n)\<close>; or an exception that no handler takes, on which the interpreter
  prints a traceback and exits with status 1.
\<close>

datatype ending = Returned | SysExit nat | Uncaught py_exception

fun exit_status :: "ending \<Rightarrow> nat" where
  "exit_status Returned = 0"
| "exit_status (SysExit n) = n"
| "exit_status (Uncaught e) = 1"

text \<open>Lines 76 to 81: the two handlers.\<close>

fun handlers :: "signal \<times> state \<Rightarrow> ending \<times> state" where
  "handlers (Raise SqliteError, s) = (SysExit 1, say SQLiteErrorMsg s)"
| "handlers (Raise FileNotFoundError, s) = (SysExit 1, say DirectoryNotFound s)"
| "handlers (Raise OtherOSError, s) = (Uncaught OtherOSError, s)"
| "handlers (Normal, s) = (Returned, s)"
| "handlers (Return, s) = (Returned, s)"

definition initial :: "db \<Rightarrow> state" where
  "initial d = \<lparr>disk = d, txn = None, calls = 0, conn = NoConn, stdout = [],
                batch_data = [], total_records = 0\<rparr>"

text \<open>
  \<^verbatim>\<open>parse_and_import_data\<close>, with the local constant \<^verbatim>\<open>batch_size\<close> as a parameter: the
  first \<^verbatim>\<open>print\<close>, the \<^verbatim>\<open>try\<close>, its handlers, and the \<^verbatim>\<open>finally\<close>, which runs on
  every path.
\<close>

definition import_with :: "nat \<Rightarrow> world \<Rightarrow> db \<Rightarrow> ending \<times> state" where
  "import_with batch_size W d =
     (let (e, s) = handlers (try_body W batch_size (say Connecting (initial d)))
      in (e, close s))"

definition parse_and_import_data :: "world \<Rightarrow> db \<Rightarrow> ending \<times> state" where
  "parse_and_import_data = import_with 50000"

section \<open>The vocabulary of the claims\<close>

text \<open>
  The definitions of this section are not code of the script: they name what the
  specification talks about, so that the claims can be stated against the model above.

  The canonical record of a matched pair: the right-hand token is the key.
\<close>

definition canonical :: "str \<times> str \<Rightarrow> str \<times> str" where
  "canonical p = (snd p, fst p)"

text \<open>The matched pairs of one file, in order of appearance; none when it cannot be read.\<close>

definition matches_of :: "world \<Rightarrow> source_file \<Rightarrow> (str \<times> str) list" where
  "matches_of W f =
     (case f of Readable bytes \<Rightarrow> findall (is_decimal W) (decode W bytes) | _ \<Rightarrow> [])"

definition all_matches :: "world \<Rightarrow> (string \<times> source_file) list \<Rightarrow> (str \<times> str) list" where
  "all_matches W files = concat (map (\<lambda>e. matches_of W (snd e)) files)"

text \<open>The input files of a run: those of the configured directory, or else the fallback's.\<close>

definition selected_files :: "world \<Rightarrow> (string \<times> source_file) list" where
  "selected_files W =
     (if glob_qb_txt (data_dir W) = [] then glob_qb_txt (cwd W) else glob_qb_txt (data_dir W))"

text \<open>
  The record sequence of a run: file enumeration order, then order of appearance in the
  file.
\<close>

definition records_in_order :: "world \<Rightarrow> (str \<times> str) list" where
  "records_in_order W = map canonical (all_matches W (selected_files W))"

text \<open>The unbatched pipeline: one upsert for each record, in order.\<close>

definition upsert_one_by_one :: "(str \<rightharpoonup> str) \<Rightarrow> (str \<times> str) list \<Rightarrow> (str \<rightharpoonup> str)" where
  "upsert_one_by_one t records = foldl (\<lambda>t r. t(fst r \<mapsto> snd r)) t records"

text \<open>The table as it will be once the buffer is flushed.\<close>

definition pending :: "state \<Rightarrow> (str \<rightharpoonup> str)" where
  "pending s = upsert_one_by_one (rows (disk s)) (batch_data s)"

text \<open>
  What the specification says of the extractor, in its words. One or more decimal digits:
\<close>

definition digits :: "(nat \<Rightarrow> bool) \<Rightarrow> str \<Rightarrow> bool" where
  "digits dg g = (g \<noteq> [] \<and> list_all dg g)"

text \<open>
  A match begins at the head of a text: one or more digits, then exactly four hyphens (the
  next code point is a digit), then one or more digits.
\<close>

definition match_starts :: "(nat \<Rightarrow> bool) \<Rightarrow> str \<Rightarrow> bool" where
  "match_starts dg s =
     (\<exists>g1 g2 post. s = g1 @ hyphens @ g2 @ post \<and> digits dg g1 \<and> digits dg g2)"

text \<open>
  The non-overlapping matches of a text, from left to right: where no match begins, the
  scan moves on by one code point; where one begins, it is taken with its second group as
  long as it can be, and the next match is looked for after its end.
\<close>

inductive extracts :: "(nat \<Rightarrow> bool) \<Rightarrow> str \<Rightarrow> (str \<times> str) list \<Rightarrow> bool" for dg where
  at_end: "extracts dg [] []"
| skip: "\<not> match_starts dg (c # cs) \<Longrightarrow> extracts dg cs ms \<Longrightarrow> extracts dg (c # cs) ms"
| take: "digits dg g1 \<Longrightarrow> digits dg g2 \<Longrightarrow> post = [] \<or> \<not> dg (hd post) \<Longrightarrow> extracts dg post ms
         \<Longrightarrow> extracts dg (g1 @ hyphens @ g2 @ post) ((g1, g2) # ms)"

text \<open>
  A triple \<open>triple P f Q\<close> says: from a state that satisfies \<open>P\<close>, the step \<open>f\<close> ends
  with a signal and a state that satisfy \<open>Q\<close>.
\<close>

definition triple :: "(state \<Rightarrow> bool) \<Rightarrow> step \<Rightarrow> (signal \<Rightarrow> state \<Rightarrow> bool) \<Rightarrow> bool" where
  "triple P f Q = (\<forall>s sig s'. P s \<longrightarrow> f s = (sig, s') \<longrightarrow> Q sig s')"

text \<open>
  The calls made so far have all succeeded (\<open>clean\<close>); the last call made has failed,
  and it is the only one (\<open>broken\<close>).
\<close>

definition clean :: "world \<Rightarrow> state \<Rightarrow> bool" where
  "clean W s = (\<forall>n<calls s. \<not> fault W n)"

definition broken :: "world \<Rightarrow> state \<Rightarrow> bool" where
  "broken W s = (0 < calls s \<and> fault W (calls s - 1) \<and> (\<forall>n<calls s - 1. \<not> fault W n))"

definition faults_seen :: "world \<Rightarrow> signal \<Rightarrow> state \<Rightarrow> bool" where
  "faults_seen W sig s = (if sig = Raise SqliteError then broken W s else clean W s)"

text \<open>
  The call number \<open>n\<close> of a run raises \<^verbatim>\<open>sqlite3.Error\<close>: the storage engine fails at it,
  or it is the first call of the run, which is the \<^verbatim>\<open>connect\<close>, and there is no working
  directory to open the database file in.
\<close>

definition raises :: "world \<Rightarrow> nat \<Rightarrow> bool" where
  "raises W n = (fault W n \<or> (n = 0 \<and> cwd W = None))"

text \<open>
  The store between two records, when the records \<open>seen\<close> have been taken from the input
  files: \<open>k\<close> whole batches are committed, the other records are in the buffer, and no
  transaction is open. Calls 0 to 3 are the \<^verbatim>\<open>connect\<close> and the schema; each batch is two
  more calls, \<^verbatim>\<open>executemany\<close> and \<^verbatim>\<open>commit\<close>.
\<close>

definition batched :: "nat \<Rightarrow> db \<Rightarrow> nat \<Rightarrow> (str \<times> str) list \<Rightarrow> state \<Rightarrow> bool" where
  "batched bs d k seen s =
     (txn s = None \<and> calls s = 4 + 2 * k
      \<and> length seen = k * bs + length (batch_data s) \<and> length (batch_data s) < bs
      \<and> batch_data s = drop (k * bs) seen
      \<and> rows (disk s) = upsert_one_by_one (rows d) (take (k * bs) seen))"

text \<open>
  The store after a call has raised: it holds the whole batches committed before that
  call, and nothing of the batch that was being written. The number of these batches is
  read off the number of calls made.
\<close>

definition aborted :: "nat \<Rightarrow> db \<Rightarrow> (str \<times> str) list \<Rightarrow> state \<Rightarrow> bool" where
  "aborted bs d seen s =
     ((calls s - 5) div 2 * bs \<le> length seen
      \<and> rows (disk s) = upsert_one_by_one (rows d) (take ((calls s - 5) div 2 * bs) seen))"

definition batches :: "nat \<Rightarrow> db \<Rightarrow> (str \<times> str) list \<Rightarrow> signal \<Rightarrow> state \<Rightarrow> bool" where
  "batches bs d seen sig s =
     ((sig = Normal \<longrightarrow> (\<exists>k. batched bs d k seen s))
      \<and> (sig = Raise SqliteError \<longrightarrow> aborted bs d seen s))"

text \<open>The buffer is within the threshold, and below it where the loop goes on.\<close>

definition buffer_ok :: "nat \<Rightarrow> signal \<Rightarrow> state \<Rightarrow> bool" where
  "buffer_ok batch_size sig s =
     (length (batch_data s) \<le> batch_size \<and> (sig = Normal \<longrightarrow> length (batch_data s) < batch_size))"

text \<open>
  Two runs that differ only in the database they started from, \<open>d\<close> and \<open>d'\<close>: two tables
  are \<open>shifted\<close> when they are the starting tables with the same rows written over them;
  a flag is \<open>raised\<close> when the same statements have set it in both. Two states are in
  \<open>same_run\<close> when they agree on everything but the database, and their databases are
  related in this way. A step is \<open>in_step\<close> when, from related states, it ends with the
  same signal in related states.
\<close>

definition shifted :: "(str \<rightharpoonup> str) \<Rightarrow> (str \<rightharpoonup> str) \<Rightarrow> (str \<rightharpoonup> str) \<Rightarrow> (str \<rightharpoonup> str) \<Rightarrow> bool" where
  "shifted b b' m m' = (\<exists>M. m = b ++ M \<and> m' = b' ++ M)"

definition shifted_txn ::
  "(str \<rightharpoonup> str) \<Rightarrow> (str \<rightharpoonup> str) \<Rightarrow> (str \<rightharpoonup> str) option \<Rightarrow> (str \<rightharpoonup> str) option \<Rightarrow> bool" where
  "shifted_txn b b' x x' =
     (case x of
        None \<Rightarrow> x' = None
      | Some t \<Rightarrow> (case x' of None \<Rightarrow> False | Some t' \<Rightarrow> shifted b b' t t'))"

definition raised :: "bool \<Rightarrow> bool \<Rightarrow> bool \<Rightarrow> bool \<Rightarrow> bool" where
  "raised x x' a a' = (\<exists>T. a = (x \<or> T) \<and> a' = (x' \<or> T))"

definition same_run :: "db \<Rightarrow> db \<Rightarrow> state \<Rightarrow> state \<Rightarrow> bool" where
  "same_run d d' s s' =
     (calls s = calls s' \<and> conn s = conn s' \<and> stdout s = stdout s'
      \<and> batch_data s = batch_data s' \<and> total_records s = total_records s'
      \<and> shifted (rows d) (rows d') (rows (disk s)) (rows (disk s'))
      \<and> shifted_txn (rows d) (rows d') (txn s) (txn s')
      \<and> raised (has_table d) (has_table d') (has_table (disk s)) (has_table (disk s'))
      \<and> raised (has_index d) (has_index d') (has_index (disk s)) (has_index (disk s')))"

definition in_step :: "(state \<Rightarrow> state \<Rightarrow> bool) \<Rightarrow> step \<Rightarrow> bool" where
  "in_step R f = (\<forall>s s'. R s s' \<longrightarrow> fst (f s) = fst (f s') \<and> R (snd (f s)) (snd (f s')))"

section \<open>Concrete worlds\<close>

text \<open>
  The inputs on which the model is run below. \<open>cps\<close> gives the code points of an ASCII
  literal and \<open>ascii\<close> its bytes; \<open>ascii_digit\<close> is the class \<^verbatim>\<open>\d\<close> on ASCII text.
  \<open>ascii_ignore\<close> is the codec on the files used here, which hold ASCII bytes and the
  byte 0xFF (never valid in UTF-8): a byte below 0x80 is the code point of the same
  number, and the others are dropped.
\<close>

definition cps :: "string \<Rightarrow> str" where
  "cps s = map of_char s"

definition ascii :: "string \<Rightarrow> byte list" where
  "ascii s = map of_char s"

definition ascii_digit :: "nat \<Rightarrow> bool" where
  "ascii_digit c = (48 \<le> c \<and> c \<le> 57)"

definition ascii_ignore :: "byte list \<Rightarrow> str" where
  "ascii_ignore bs = map unat (filter (\<lambda>b. b < 0x80) bs)"

definition no_faults :: "nat \<Rightarrow> bool" where
  "no_faults n = False"

definition empty_db :: db where
  "empty_db = \<lparr>rows = Map.empty, has_table = False, has_index = False\<rparr>"

definition world_of :: "directory option \<Rightarrow> directory option \<Rightarrow> (nat \<Rightarrow> bool) \<Rightarrow> world" where
  "world_of d c f =
     \<lparr>is_decimal = ascii_digit, decode = ascii_ignore, data_dir = d, cwd = c, fault = f\<rparr>"

text \<open>The file of the specification's example: two lines with the same key.\<close>

definition two_lines :: "byte list" where
  "two_lines = ascii (''5551234----9001'' @ [CHR 0x0A] @ ''5555678----9001'' @ [CHR 0x0A])"

definition example_world :: world where
  "example_world = world_of (Some [(''qb_dump.txt'', Readable two_lines)]) (Some []) no_faults"

text \<open>A storage engine whose call number \<open>k\<close> fails, and the example file on it.\<close>

definition fault_at :: "nat \<Rightarrow> nat \<Rightarrow> bool" where
  "fault_at k n = (n = k)"

definition failing_world :: world where
  "failing_world = world_of (Some [(''qb_dump.txt'', Readable two_lines)]) (Some []) (fault_at 6)"

text \<open>The same, with the failure at call number 5: the commit of the first batch of one record.\<close>

definition commit_failing_world :: world where
  "commit_failing_world = world_of (Some [(''qb_dump.txt'', Readable two_lines)]) (Some []) (fault_at 5)"

text \<open>Neither the configured directory nor the working directory exists.\<close>

definition no_directory_world :: world where
  "no_directory_world = world_of None None no_faults"



text \<open>One file of the form \<^verbatim>\<open><A>----<B>\<close>.\<close>

definition single_world :: world where
  "single_world = world_of (Some [(''qb_one.txt'', Readable (ascii ''5551234----9001''))]) (Some []) no_faults"

lemmas run_defs =
  import_with_def parse_and_import_data_def try_body_def find_and_import_def and_then_def say_def print_def
  initial_def sqlite3_connect_def setup_database_def storage_call_def
  execute_create_table_def execute_create_index_def commit_def close_def glob_qb_txt_def
  fnmatch_qb_txt_def import_files_def process_file_def process_record_def
  flush_remainder_def executemany_def insert_or_replace_def match_at_def match_rest_def
  hyphens_def hyphen_def

lemmas world_defs =
  cps_def ascii_def ascii_digit_def ascii_ignore_def no_faults_def empty_db_def world_of_def

lemmas spec_defs =
  records_in_order_def all_matches_def matches_of_def selected_files_def canonical_def

section \<open>Facts about completed runs\<close>

lemma say_fields [simp]:
  "disk (say m s) = disk s" "txn (say m s) = txn s" "calls (say m s) = calls s"
  "conn (say m s) = conn s" "batch_data (say m s) = batch_data s"
  "total_records (say m s) = total_records s" "stdout (say m s) = stdout s @ [m]"
  by (simp_all add: say_def)

lemma upsert_one_by_one_append:
  "upsert_one_by_one t (xs @ ys) = upsert_one_by_one (upsert_one_by_one t xs) ys"
  by (simp add: upsert_one_by_one_def)

lemma foldl_insert_or_replace:
  "foldl insert_or_replace t xs = upsert_one_by_one t xs"
  unfolding upsert_one_by_one_def
  by (rule arg_cong [where f = "\<lambda>f. foldl f t xs"]) (simp add: fun_eq_iff insert_or_replace_def)

lemma upsert_one_by_one_simps [simp]:
  "upsert_one_by_one t [] = t"
  "upsert_one_by_one t (r # rs) = upsert_one_by_one (t(fst r \<mapsto> snd r)) rs"
  by (simp_all add: upsert_one_by_one_def)

lemma process_record_Normal:
  assumes "process_record W bs r s = (Normal, s')" and "txn s = None"
  shows "txn s' = None"
    and "pending s' = upsert_one_by_one (pending s) [canonical r]"
    and "has_table (disk s') = has_table (disk s)"
    and "has_index (disk s') = has_index (disk s)"
    and "conn s' = conn s"
    and "total_records s' = Suc (total_records s)"
  using assms
  by (auto simp: process_record_def and_then_def executemany_def commit_def storage_call_def
        Let_def pending_def canonical_def foldl_insert_or_replace upsert_one_by_one_append insert_or_replace_def
        split: prod.splits if_splits)

lemma records_Normal:
  assumes "for_each (process_record W bs) rs s = (Normal, s')" and "txn s = None"
  shows "txn s' = None \<and> pending s' = upsert_one_by_one (pending s) (map canonical rs)
    \<and> has_table (disk s') = has_table (disk s) \<and> has_index (disk s') = has_index (disk s)
    \<and> conn s' = conn s \<and> total_records s' = total_records s + length rs"
  using assms
proof (induction rs arbitrary: s)
  case Nil
  then show ?case by simp
next
  case (Cons r rs)
  obtain sig s1 where r: "process_record W bs r s = (sig, s1)"
    by (cases "process_record W bs r s")
  with Cons.prems(1) have sig: "sig = Normal" and rest: "for_each (process_record W bs) rs s1 = (Normal, s')"
    by (auto split: if_splits)
  note step = process_record_Normal [OF r [unfolded sig] Cons.prems(2)]
  note ih = Cons.IH [OF rest step(1)]
  have "pending s' = upsert_one_by_one (upsert_one_by_one (pending s) [canonical r]) (map canonical rs)"
    using ih step(2) by (simp only:)
  then have "pending s' = upsert_one_by_one (pending s) (map canonical (r # rs))"
    by (simp only: upsert_one_by_one_append [symmetric] list.map append_Cons append_Nil)
  with ih step(3-6) show ?case
    by simp
qed

lemma process_file_Normal:
  assumes "process_file W bs e s = (Normal, s')" and "txn s = None"
  shows "txn s' = None \<and> pending s' = upsert_one_by_one (pending s) (map canonical (matches_of W (snd e)))
    \<and> has_table (disk s') = has_table (disk s) \<and> has_index (disk s') = has_index (disk s)
    \<and> conn s' = conn s
    \<and> total_records s' = total_records s + length (matches_of W (snd e))
    \<and> (\<exists>bytes. snd e = Readable bytes)"
proof (cases "snd e")
  case (Readable bytes)
  with assms(1) have "for_each (process_record W bs) (findall (is_decimal W) (decode W bytes))
      (say (ProcessingFile (fst e)) s) = (Normal, s')"
    by (simp add: process_file_def)
  from records_Normal [OF this] assms(2) Readable show ?thesis
    by (simp add: matches_of_def pending_def)
next
  case Missing
  with assms(1) show ?thesis by (simp add: process_file_def)
next
  case Unreadable
  with assms(1) show ?thesis by (simp add: process_file_def)
qed

lemma files_Normal:
  assumes "for_each (process_file W bs) files s = (Normal, s')" and "txn s = None"
  shows "txn s' = None \<and> pending s' = upsert_one_by_one (pending s) (map canonical (all_matches W files))
    \<and> has_table (disk s') = has_table (disk s) \<and> has_index (disk s') = has_index (disk s)
    \<and> conn s' = conn s
    \<and> total_records s' = total_records s + length (all_matches W files)
    \<and> (\<forall>e\<in>set files. \<exists>bytes. snd e = Readable bytes)"
  using assms
proof (induction files arbitrary: s)
  case Nil
  then show ?case by (simp add: all_matches_def)
next
  case (Cons e files)
  obtain sig s1 where r: "process_file W bs e s = (sig, s1)"
    by (cases "process_file W bs e s")
  with Cons.prems(1) have sig: "sig = Normal" and rest: "for_each (process_file W bs) files s1 = (Normal, s')"
    by (auto split: if_splits)
  note step = process_file_Normal [OF r [unfolded sig] Cons.prems(2)]
  from step have t1: "txn s1 = None" by simp
  note ih = Cons.IH [OF rest t1]
  have am: "all_matches W (e # files) = matches_of W (snd e) @ all_matches W files"
    by (simp add: all_matches_def)
  have "pending s' = upsert_one_by_one
      (upsert_one_by_one (pending s) (map canonical (matches_of W (snd e))))
      (map canonical (all_matches W files))"
    using ih step by (simp only:)
  then have "pending s' = upsert_one_by_one (pending s) (map canonical (all_matches W (e # files)))"
    by (simp only: upsert_one_by_one_append [symmetric] am map_append)
  with ih step show ?case
    by (simp add: am)
qed

lemma sqlite3_connect_no_Return:
  "sqlite3_connect W s = (sig, s') \<Longrightarrow> sig \<noteq> Return"
  by (auto simp: sqlite3_connect_def storage_call_def split: if_splits)

lemma sqlite3_connect_cwd:
  "cwd W \<noteq> None \<Longrightarrow> sqlite3_connect W = storage_call W (\<lambda>s. s\<lparr>conn := Open\<rparr>)"
  by (rule ext) (auto simp: sqlite3_connect_def)

lemma no_cwd_run:
  assumes "cwd W = None"
  shows "import_with bs W d =
    (SysExit 1, (initial d)\<lparr>calls := 1, stdout := [Connecting, SQLiteErrorMsg]\<rparr>)"
  using assms
  by (simp add: import_with_def try_body_def and_then_def sqlite3_connect_def say_def
        initial_def close_def)

lemma and_then_no_Return:
  assumes "and_then a b s = (sig, s')"
    and "\<And>s sig s'. a s = (sig, s') \<Longrightarrow> sig \<noteq> Return"
    and "\<And>s sig s'. b s = (sig, s') \<Longrightarrow> sig \<noteq> Return"
  shows "sig \<noteq> Return"
  using assms by (auto simp: and_then_def split: prod.splits if_splits)

lemma for_each_no_Return:
  assumes "for_each body xs s = (sig, s')"
    and "\<And>x s sig s'. body x s = (sig, s') \<Longrightarrow> sig \<noteq> Return"
  shows "sig \<noteq> Return"
  using assms(1)
proof (induction xs arbitrary: s)
  case Nil
  then show ?case by simp
next
  case (Cons x xs)
  obtain sig1 s1 where b: "body x s = (sig1, s1)" by (cases "body x s")
  show ?case
  proof (cases "sig1 = Normal")
    case True
    with Cons.prems b have "for_each body xs s1 = (sig, s')" by simp
    then show ?thesis by (rule Cons.IH)
  next
    case False
    with Cons.prems b have "sig = sig1" by simp
    with assms(2) [OF b] show ?thesis by simp
  qed
qed

lemma process_record_no_Return:
  "process_record W bs r s = (sig, s') \<Longrightarrow> sig \<noteq> Return"
  by (auto simp: process_record_def and_then_def executemany_def commit_def storage_call_def
        Let_def split: prod.splits if_splits)

lemma process_file_no_Return:
  "process_file W bs e s = (sig, s') \<Longrightarrow> sig \<noteq> Return"
  by (auto simp: process_file_def Let_def split: source_file.splits
        dest: for_each_no_Return [OF _ process_record_no_Return])

lemma flush_remainder_no_Return:
  "flush_remainder W s = (sig, s') \<Longrightarrow> sig \<noteq> Return"
  by (auto simp: flush_remainder_def and_then_def executemany_def commit_def storage_call_def
        split: prod.splits if_splits)

lemma import_files_no_Return:
  "import_files W bs files s = (sig, s') \<Longrightarrow> sig \<noteq> Return"
proof -
  assume a: "import_files W bs files s = (sig, s')"
  have 1: "sig \<noteq> Return" if "for_each (process_file W bs) files s = (sig, s')" for s sig s'
    using that by (rule for_each_no_Return) (rule process_file_no_Return)
  have 2: "sig \<noteq> Return"
    if "and_then (flush_remainder W) (\<lambda>s'. print (ImportComplete (total_records s')) s') s = (sig, s')"
    for s sig s'
    using that by (rule and_then_no_Return) (auto simp: print_def dest: flush_remainder_no_Return)
  from a show ?thesis
    unfolding import_files_def by (rule and_then_no_Return) (auto dest: 1 2)
qed

lemma flush_remainder_Normal:
  assumes "flush_remainder W s = (Normal, s')" and "txn s = None"
  shows "txn s' = None \<and> rows (disk s') = pending s
    \<and> has_table (disk s') = has_table (disk s) \<and> has_index (disk s') = has_index (disk s)
    \<and> conn s' = conn s \<and> total_records s' = total_records s \<and> stdout s' = stdout s"
  using assms
  by (auto simp: flush_remainder_def and_then_def executemany_def commit_def storage_call_def
        pending_def foldl_insert_or_replace split: if_splits prod.splits)

lemma import_files_done:
  assumes "import_files W bs files s = (Normal, s')" and "txn s = None"
  shows "txn s' = None
    \<and> rows (disk s') = upsert_one_by_one (rows (disk s)) (map canonical (all_matches W files))
    \<and> has_table (disk s') = has_table (disk s) \<and> has_index (disk s') = has_index (disk s)
    \<and> conn s' = conn s
    \<and> total_records s' = length (all_matches W files)
    \<and> last (stdout s') = ImportComplete (length (all_matches W files))
    \<and> (\<forall>e\<in>set files. \<exists>bytes. snd e = Readable bytes)"
proof -
  let ?s0 = "s\<lparr>total_records := 0, batch_data := []\<rparr>"
  obtain sig1 s1 where l: "for_each (process_file W bs) files ?s0 = (sig1, s1)"
    by (cases "for_each (process_file W bs) files ?s0")
  obtain sig2 s2 where f: "flush_remainder W s1 = (sig2, s2)"
    by (cases "flush_remainder W s1")
  from assms(1) l have n1: "sig1 = Normal"
    by (auto simp: import_files_def and_then_def split: if_splits)
  from assms(1) l f n1 have n2: "sig2 = Normal"
    by (auto simp: import_files_def and_then_def split: if_splits)
  from assms(1) l f n1 n2 have s': "s' = say (ImportComplete (total_records s2)) s2"
    by (simp add: import_files_def and_then_def print_def)
  from assms(2) have "txn ?s0 = None" by simp
  note a = files_Normal [OF l [unfolded n1] this]
  from a have "txn s1 = None" by simp
  note b = flush_remainder_Normal [OF f [unfolded n2] this]
  have "pending ?s0 = rows (disk s)" by (simp add: pending_def)
  with a b s' show ?thesis
    by simp
qed

lemma setup_database_Normal:
  assumes "setup_database W s = (Normal, s')" and "txn s = None"
  shows "s' = s\<lparr>disk := (disk s)\<lparr>has_table := True, has_index := True\<rparr>,
                  calls := calls s + 3, stdout := stdout s @ [SchemaCreated]\<rparr>"
  using assms
  by (auto simp: setup_database_def and_then_def execute_create_table_def
        execute_create_index_def commit_def storage_call_def print_def say_def
        split: if_splits prod.splits)

lemma setup_database_signal:
  "setup_database W s = (sig, s') \<Longrightarrow> sig = Normal \<or> sig = Raise SqliteError"
  by (auto simp: setup_database_def and_then_def execute_create_table_def
        execute_create_index_def commit_def storage_call_def print_def
        split: if_splits prod.splits)

lemma try_body_done:
  assumes "try_body W bs s = (sig, s')" and "sig = Normal \<or> sig = Return"
    and "txn s = None"
  shows "txn s' = None
    \<and> rows (disk s') = upsert_one_by_one (rows (disk s)) (map canonical (all_matches W (selected_files W)))
    \<and> has_table (disk s') \<and> has_index (disk s') \<and> conn s' = Open
    \<and> (\<forall>e\<in>set (selected_files W). \<exists>bytes. snd e = Readable bytes)
    \<and> (if selected_files W = [] then sig = Return \<and> last (stdout s') = NoFilesInCwd
        else sig = Normal \<and> last (stdout s') = ImportComplete (length (all_matches W (selected_files W))))"
proof -
  obtain sig1 s1 where c: "sqlite3_connect W s = (sig1, s1)"
    by (cases "sqlite3_connect W s")
  obtain sig2 s2 where d: "setup_database W s1 = (sig2, s2)"
    by (cases "setup_database W s1")
  from c have "sig1 \<noteq> Return"
    by (rule sqlite3_connect_no_Return)
  with assms(1,2) c have n1: "sig1 = Normal"
    by (auto simp: try_body_def find_and_import_def and_then_def split: if_splits)
  from setup_database_signal [OF d] assms(1,2) c d n1 have n2: "sig2 = Normal"
    by (auto simp: try_body_def find_and_import_def and_then_def split: if_splits)
  from c n1 have s1: "s1 = s\<lparr>calls := Suc (calls s), conn := Open\<rparr>"
    by (auto simp: sqlite3_connect_def storage_call_def split: if_splits)
  with assms(3) have t1: "txn s1 = None" by simp
  note s2 = setup_database_Normal [OF d [unfolded n2] t1]
  show ?thesis
  proof (cases "selected_files W = []")
    case True
    then have g: "glob_qb_txt (data_dir W) = []" "glob_qb_txt (cwd W) = []"
      by (auto simp: selected_files_def split: if_splits)
    with assms(1) c d n1 n2 have "sig = Return" "s' = say NoFilesInCwd (say NoFilesInDataDir s2)"
      by (simp_all add: try_body_def find_and_import_def and_then_def)
    with s2 s1 assms(3) True show ?thesis
      by (simp add: all_matches_def)
  next
    case False
    then obtain s3 where i: "import_files W bs (selected_files W) s3 = (sig, s')"
      and s3: "s3 = s2 \<or> s3 = say NoFilesInDataDir s2"
      using assms(1) c d n1 n2
      by (auto simp: try_body_def find_and_import_def and_then_def selected_files_def Let_def split: if_splits)
    from s3 s2 s1 assms(3) have t3: "txn s3 = None" and r3: "rows (disk s3) = rows (disk s)"
      and h3: "has_table (disk s3)" "has_index (disk s3)" "conn s3 = Open"
      by auto
    from import_files_no_Return [OF i] assms(2) have sig: "sig = Normal" by simp
    from import_files_done [OF i [unfolded sig] t3] r3 h3 False have k: "txn s' = None
    \<and> rows (disk s') = upsert_one_by_one (rows (disk s)) (map canonical (all_matches W (selected_files W)))
    \<and> has_table (disk s') \<and> has_index (disk s') \<and> conn s' = Open
    \<and> (\<forall>e\<in>set (selected_files W). \<exists>bytes. snd e = Readable bytes)
    \<and> last (stdout s') = ImportComplete (length (all_matches W (selected_files W)))"
      by simp
    with sig False show ?thesis by simp
  qed
qed

lemma handlers_exit_zero:
  "exit_status (fst (handlers (sig, s))) = 0 \<longleftrightarrow> sig = Normal \<or> sig = Return"
proof (cases sig)
  case (Raise e)
  then show ?thesis by (cases e) simp_all
qed simp_all

lemma handlers_state_done:
  "sig = Normal \<or> sig = Return \<Longrightarrow> handlers (sig, s) = (Returned, s)"
  by auto

lemma completed_run:
  assumes "exit_status (fst (import_with bs W d)) = 0"
  shows "fst (import_with bs W d) = Returned"
    and "rows (disk (snd (import_with bs W d)))
           = upsert_one_by_one (rows d) (map canonical (all_matches W (selected_files W)))"
    and "has_table (disk (snd (import_with bs W d)))"
    and "has_index (disk (snd (import_with bs W d)))"
    and "conn (snd (import_with bs W d)) = Closed"
    and "\<forall>e\<in>set (selected_files W). \<exists>bytes. snd e = Readable bytes"
    and "last (stdout (snd (import_with bs W d))) =
          (if selected_files W = [] then NoFilesInCwd
           else ImportComplete (length (all_matches W (selected_files W))))"
proof -
  let ?s0 = "say Connecting (initial d)"
  obtain sig s' where b: "try_body W bs ?s0 = (sig, s')"
    by (cases "try_body W bs ?s0")
  from assms b have sig: "sig = Normal \<or> sig = Return"
    by (simp add: import_with_def split_def Let_def handlers_exit_zero)
  have r: "import_with bs W d = (Returned, close s')"
    using b handlers_state_done [OF sig] by (simp add: import_with_def)
  have "txn ?s0 = None" by (simp add: initial_def)
  note t = try_body_done [OF b sig this]
  have d0: "rows (disk ?s0) = rows d" by (simp add: initial_def)
  show "fst (import_with bs W d) = Returned" using r by simp
  show "rows (disk (snd (import_with bs W d)))
           = upsert_one_by_one (rows d) (map canonical (all_matches W (selected_files W)))"
    using r t d0 by (simp add: close_def)
  show "has_table (disk (snd (import_with bs W d)))" using r t by (simp add: close_def)
  show "has_index (disk (snd (import_with bs W d)))" using r t by (simp add: close_def)
  show "conn (snd (import_with bs W d)) = Closed" using r t by (simp add: close_def)
  show "\<forall>e\<in>set (selected_files W). \<exists>bytes. snd e = Readable bytes" using t by simp
  show "last (stdout (snd (import_with bs W d))) =
          (if selected_files W = [] then NoFilesInCwd
           else ImportComplete (length (all_matches W (selected_files W))))"
    using r t by (simp add: close_def)
qed

lemma upsert_one_by_one_map_add:
  "upsert_one_by_one t rs = t ++ map_of (rev rs)"
proof (induction rs arbitrary: t)
  case Nil
  then show ?case by simp
next
  case (Cons r rs)
  have "upsert_one_by_one t (r # rs) = upsert_one_by_one (t(fst r \<mapsto> snd r)) rs"
    by (rule upsert_one_by_one_simps)
  also have "\<dots> = t(fst r \<mapsto> snd r) ++ map_of (rev rs)"
    by (rule Cons.IH)
  also have "\<dots> = t ++ map_of (rev (r # rs))"
    by (rule ext) (simp add: map_add_def split: option.splits)
  finally show ?case .
qed

lemma map_of_rev_None:
  "k \<notin> fst ` set rs \<Longrightarrow> map_of (rev rs) k = None"
  by (subst map_of_eq_None_iff) simp

lemma upsert_twice:
  "upsert_one_by_one (upsert_one_by_one t rs) rs = upsert_one_by_one t rs"
  unfolding upsert_one_by_one_map_add
  by (rule ext) (simp add: map_add_def split: option.splits)

lemma upsert_last_wins:
  assumes "rs = pre @ (k, v) # post" and "k \<notin> fst ` set post"
  shows "upsert_one_by_one t rs k = Some v"
  using map_of_rev_None [OF assms(2)]
  by (simp add: assms(1) upsert_one_by_one_map_add map_add_def map_of_append)

lemma upsert_untouched:
  "k \<notin> fst ` set rs \<Longrightarrow> upsert_one_by_one t rs k = t k"
  by (simp add: upsert_one_by_one_map_add map_add_def map_of_rev_None)

lemma upsert_touched:
  assumes "k \<in> fst ` set rs"
  shows "\<exists>v. (k, v) \<in> set rs \<and> upsert_one_by_one t rs k = Some v"
proof -
  have "map_of (rev rs) k \<noteq> None"
    by (subst map_of_eq_None_iff) (use assms in simp)
  then obtain v where v: "map_of (rev rs) k = Some v" by blast
  from map_of_SomeD [OF v] have "(k, v) \<in> set rs" by simp
  with v show ?thesis
    by (simp add: upsert_one_by_one_map_add map_add_def)
qed

lemma process_record_ok:
  "\<forall>n. \<not> fault W n \<Longrightarrow> fst (process_record W bs r s) = Normal"
  by (simp add: process_record_def and_then_def executemany_def commit_def storage_call_def
        Let_def split_def)

lemma for_each_ok:
  "(\<And>x s. x \<in> set xs \<Longrightarrow> fst (body x s) = Normal) \<Longrightarrow> fst (for_each body xs s) = Normal"
proof (induction xs arbitrary: s)
  case Nil
  then show ?case by simp
next
  case (Cons x xs)
  have "fst (body x s) = Normal" by (rule Cons.prems) simp
  moreover have "fst (for_each body xs s') = Normal" for s'
    by (rule Cons.IH) (simp add: Cons.prems)
  ultimately show ?case by (simp add: split_def)
qed

lemma process_file_ok:
  "\<forall>n. \<not> fault W n \<Longrightarrow> snd e = Readable bytes \<Longrightarrow> fst (process_file W bs e s) = Normal"
  by (simp add: process_file_def for_each_ok process_record_ok)

lemma flush_remainder_ok:
  "\<forall>n. \<not> fault W n \<Longrightarrow> fst (flush_remainder W s) = Normal"
  by (simp add: flush_remainder_def and_then_def executemany_def commit_def storage_call_def
        split_def)

lemma import_files_ok:
  assumes "\<forall>n. \<not> fault W n" and "\<forall>e\<in>set files. \<exists>bytes. snd e = Readable bytes"
  shows "fst (import_files W bs files s) = Normal"
proof -
  have "fst (for_each (process_file W bs) files s') = Normal" for s'
    using assms by (intro for_each_ok) (auto simp: process_file_ok)
  then show ?thesis
    using flush_remainder_ok [OF assms(1)]
    by (simp add: import_files_def and_then_def split_def print_def Let_def)
qed

lemma try_body_ok:
  assumes "\<forall>n. \<not> fault W n" and "\<forall>e\<in>set (selected_files W). \<exists>bytes. snd e = Readable bytes"
    and "cwd W \<noteq> None"
  shows "fst (try_body W bs s) = Normal \<or> fst (try_body W bs s) = Return"
proof -
  have i: "fst (import_files W bs (selected_files W) s') = Normal" for s'
    using assms(1,2) by (rule import_files_ok)
  show ?thesis
    using assms(1,3) i
    by (auto simp: try_body_def find_and_import_def and_then_def sqlite3_connect_def setup_database_def
          execute_create_table_def execute_create_index_def commit_def storage_call_def
          print_def split_def Let_def selected_files_def)
qed

lemma run_completes:
  assumes "\<forall>n. \<not> fault W n" and "\<forall>e\<in>set (selected_files W). \<exists>bytes. snd e = Readable bytes"
    and "cwd W \<noteq> None"
  shows "exit_status (fst (import_with bs W d)) = 0"
proof -
  obtain sig s where b: "try_body W bs (say Connecting (initial d)) = (sig, s)"
    by (cases "try_body W bs (say Connecting (initial d))")
  with try_body_ok [OF assms, of bs "say Connecting (initial d)"]
  have "sig = Normal \<or> sig = Return" by simp
  with b show ?thesis
    by (simp add: import_with_def Let_def split_def handlers_exit_zero)
qed

section \<open>The backtracking matcher and the matches of a text\<close>

lemma match_rest_digit_head:
  assumes "\<not> dg hyphen" and "s \<noteq> []" and "dg (hd s)"
  shows "match_rest dg s = None"
proof -
  have "take 4 s \<noteq> hyphens"
  proof
    assume "take 4 s = hyphens"
    then have "hd (take 4 s) = hyphen" by (simp add: hyphens_def)
    with assms(2) have "hd s = hyphen" by (cases s) simp_all
    with assms(1,3) show False by simp
  qed
  then show ?thesis by (simp add: match_rest_def)
qed

lemma backtrack_inside:
  assumes "\<not> dg hyphen"
  shows "n < length (takeWhile dg s) \<Longrightarrow> backtrack dg s n = None"
proof (induction n)
  case 0
  show ?case by simp
next
  case (Suc n)
  from Suc.prems have l: "Suc n < length s"
    using length_takeWhile_le [of dg s] by simp
  then have ne: "drop (Suc n) s \<noteq> []" by simp
  have "hd (drop (Suc n) s) = s ! Suc n"
    using l by (simp add: hd_drop_conv_nth)
  also have "\<dots> = takeWhile dg s ! Suc n"
    using Suc.prems by (simp add: takeWhile_nth)
  finally have "hd (drop (Suc n) s) \<in> set (takeWhile dg s)"
    using Suc.prems by simp
  then have "dg (hd (drop (Suc n) s))" by (auto dest: set_takeWhileD)
  with match_rest_digit_head [where dg = dg and s = "drop (Suc n) s"] assms ne Suc
  show ?case by simp
qed

lemma match_at_greedy:
  assumes "\<not> dg hyphen"
  shows "match_at dg s =
     (if takeWhile dg s = [] then None
      else case match_rest dg (dropWhile dg s) of
             Some (g2, rest) \<Rightarrow> Some (takeWhile dg s, g2, rest)
           | None \<Rightarrow> None)"
proof (cases "length (takeWhile dg s)")
  case 0
  then show ?thesis by (simp add: match_at_def)
next
  case (Suc m)
  then have "backtrack dg s m = None"
    using assms by (intro backtrack_inside [where dg = dg]) simp_all
  moreover have "take (Suc m) s = takeWhile dg s" "drop (Suc m) s = dropWhile dg s"
    using Suc takeWhile_eq_take [of dg s] dropWhile_eq_drop [of dg s] by simp_all
  moreover from Suc have "takeWhile dg s \<noteq> []" by auto
  ultimately show ?thesis
    by (simp add: match_at_def Suc split: option.splits)
qed

lemma match_at_SomeI:
  assumes "\<not> dg hyphen" and "digits dg g1" and "digits dg g2" and "post = [] \<or> \<not> dg (hd post)"
  shows "match_at dg (g1 @ hyphens @ g2 @ post) = Some (g1, g2, post)"
proof -
  from assms(2) have g1: "g1 \<noteq> []" "\<forall>c\<in>set g1. dg c"
    by (simp_all add: digits_def list_all_iff)
  from assms(3) have g2: "g2 \<noteq> []" "\<forall>c\<in>set g2. dg c"
    by (simp_all add: digits_def list_all_iff)
  have h: "takeWhile dg (hyphens @ g2 @ post) = []" "dropWhile dg (hyphens @ g2 @ post) = hyphens @ g2 @ post"
    using assms(1) by (simp_all add: hyphens_def)
  have t: "takeWhile dg (g1 @ hyphens @ g2 @ post) = g1"
    using g1(2) h(1) by simp
  have d: "dropWhile dg (g1 @ hyphens @ g2 @ post) = hyphens @ g2 @ post"
    using g1(2) h(2) by simp
  have p: "takeWhile dg post = []" "dropWhile dg post = post"
    using assms(4) by (cases post; simp)+
  have r: "match_rest dg (hyphens @ g2 @ post) = Some (g2, post)"
    using g2 p by (simp add: match_rest_def hyphens_def)
  show ?thesis
    using g1(1) assms(1) by (simp add: match_at_greedy [where dg = dg] t d r)
qed

lemma match_at_SomeD:
  assumes "\<not> dg hyphen" and "match_at dg s = Some (g1, g2, rest)"
  shows "s = g1 @ hyphens @ g2 @ rest \<and> digits dg g1 \<and> digits dg g2 \<and> (rest = [] \<or> \<not> dg (hd rest))"
proof -
  let ?d = "dropWhile dg s"
  from assms have ne: "takeWhile dg s \<noteq> []" and g1: "g1 = takeWhile dg s"
    and r: "match_rest dg ?d = Some (g2, rest)"
    by (auto simp: match_at_greedy split: if_splits option.splits)
  from r have h: "take 4 ?d = hyphens" and g2: "g2 = takeWhile dg (drop 4 ?d)" "g2 \<noteq> []"
    and rest: "rest = dropWhile dg (drop 4 ?d)"
    by (auto simp: match_rest_def Let_def split: if_splits)
  have "s = takeWhile dg s @ ?d" by simp
  also have "?d = take 4 ?d @ drop 4 ?d" by simp
  also have "drop 4 ?d = g2 @ rest" by (simp add: g2 rest)
  finally have "s = g1 @ hyphens @ g2 @ rest" by (simp add: g1 h)
  moreover have "digits dg g1"
    using ne by (auto simp: digits_def g1 list_all_iff dest: set_takeWhileD)
  moreover have "digits dg g2"
    using g2(2) by (auto simp: digits_def g2(1) list_all_iff dest: set_takeWhileD)
  moreover have "rest = [] \<or> \<not> dg (hd rest)"
    unfolding rest using hd_dropWhile [of dg "drop 4 ?d"] by blast
  ultimately show ?thesis by blast
qed

lemma match_starts_longest:
  assumes "match_starts dg s"
  shows "\<exists>g1 g2 post. s = g1 @ hyphens @ g2 @ post \<and> digits dg g1 \<and> digits dg g2
           \<and> (post = [] \<or> \<not> dg (hd post))"
proof -
  from assms obtain g1 g2 post where s: "s = g1 @ hyphens @ g2 @ post"
    and d: "digits dg g1" "digits dg g2"
    by (auto simp: match_starts_def)
  let ?g2 = "g2 @ takeWhile dg post" and ?post = "dropWhile dg post"
  have "s = g1 @ hyphens @ ?g2 @ ?post" by (simp add: s)
  moreover have "digits dg ?g2"
    using d(2) by (auto simp: digits_def list_all_iff dest: set_takeWhileD)
  moreover have "?post = [] \<or> \<not> dg (hd ?post)"
    using hd_dropWhile [of dg post] by blast
  ultimately show ?thesis using d(1) by blast
qed

lemma match_at_None_iff:
  assumes "\<not> dg hyphen"
  shows "match_at dg s = None \<longleftrightarrow> \<not> match_starts dg s"
proof
  assume n: "match_at dg s = None"
  show "\<not> match_starts dg s"
  proof
    assume "match_starts dg s"
    from match_starts_longest [OF this] obtain g1 g2 post
      where "s = g1 @ hyphens @ g2 @ post" "digits dg g1" "digits dg g2" "post = [] \<or> \<not> dg (hd post)"
      by blast
    with match_at_SomeI [where dg = dg and ?g1.0 = g1 and ?g2.0 = g2 and post = post] assms n
    show False by simp
  qed
next
  assume n: "\<not> match_starts dg s"
  show "match_at dg s = None"
  proof (cases "match_at dg s")
    case None
    then show ?thesis .
  next
    case (Some m)
    obtain g1 g2 rest where "m = (g1, g2, rest)" by (cases m)
    with Some assms match_at_SomeD [where dg = dg and s = s and ?g1.0 = g1 and ?g2.0 = g2 and rest = rest]
    have "match_starts dg s"
      by (auto simp: match_starts_def)
    with n show ?thesis by simp
  qed
qed

lemma findall_extracts:
  "\<not> dg hyphen \<Longrightarrow> extracts dg s (findall dg s)"
proof (induction dg s rule: findall.induct)
  case (1 dg)
  show ?case by (simp add: extracts.at_end)
next
  case (2 dg c cs)
  note h = 2(3)
  show ?case
  proof (cases "match_at dg (c # cs)")
    case None
    with h have "\<not> match_starts dg (c # cs)"
      by (simp add: match_at_None_iff)
    moreover from None 2 have "extracts dg cs (findall dg cs)" by simp
    ultimately show ?thesis
      using None by (simp add: extracts.skip)
  next
    case (Some m)
    obtain g1 g2 rest where m: "m = (g1, g2, rest)" by (cases m)
    with Some have eq: "match_at dg (c # cs) = Some (g1, g2, rest)" by simp
    from match_at_SomeD [where dg = dg, OF h eq]
    have s: "c # cs = g1 @ hyphens @ g2 @ rest" and d: "digits dg g1" "digits dg g2"
      and r: "rest = [] \<or> \<not> dg (hd rest)"
      by simp_all
    from 2(2) [OF eq refl refl h] have "extracts dg rest (findall dg rest)" .
    from extracts.take [OF d r this]
    have "extracts dg (c # cs) ((g1, g2) # findall dg rest)" by (simp only: s)
    moreover from eq have "findall dg (c # cs) = (g1, g2) # findall dg rest" by simp
    ultimately show ?thesis by (simp only:)
  qed
qed

lemma extracts_findall:
  assumes "\<not> dg hyphen"
  shows "extracts dg s ms \<Longrightarrow> ms = findall dg s"
proof (induction rule: extracts.induct)
  case at_end
  show ?case by simp
next
  case (skip c cs ms)
  with assms have "match_at dg (c # cs) = None"
    by (simp add: match_at_None_iff)
  with skip show ?case by simp
next
  case (take g1 g2 post ms)
  from take(1) have "g1 \<noteq> []" by (simp add: digits_def)
  then obtain c cs where s: "g1 @ hyphens @ g2 @ post = c # cs"
    by (cases g1) simp_all
  from match_at_SomeI [where dg = dg, OF assms take(1,2,3)]
  have "match_at dg (c # cs) = Some (g1, g2, post)" by (simp add: s)
  then have "findall dg (c # cs) = (g1, g2) # findall dg post" by simp
  with take(5) s show ?case by simp
qed

lemma findall_no_match:
  "\<not> dg hyphen \<Longrightarrow> (\<forall>n. \<not> match_starts dg (drop n s)) \<Longrightarrow> findall dg s = []"
proof (induction dg s rule: findall.induct)
  case (1 dg)
  show ?case by simp
next
  case (2 dg c cs)
  from 2(4) [rule_format, of 0] have "\<not> match_starts dg (c # cs)" by simp
  with 2(3) have n: "match_at dg (c # cs) = None" by (simp add: match_at_None_iff)
  have "\<forall>n. \<not> match_starts dg (drop n cs)"
  proof
    fix n
    from 2(4) [rule_format, of "Suc n"] show "\<not> match_starts dg (drop n cs)" by simp
  qed
  from 2(1) [OF n 2(3) this] n show ?case by simp
qed

lemma findall_single:
  assumes "\<not> dg hyphen" and "digits dg A" and "digits dg B"
  shows "findall dg (A @ hyphens @ B) = [(A, B)]"
proof -
  from assms(2) have "A \<noteq> []" by (simp add: digits_def)
  then obtain c cs where s: "A @ hyphens @ B = c # cs" by (cases A) simp_all
  from match_at_SomeI [where dg = dg and post = "[]" and ?g1.0 = A and ?g2.0 = B] assms
  have "match_at dg (c # cs) = Some (A, B, [])" by (simp add: s)
  then have "findall dg (c # cs) = [(A, B)]" by simp
  with s show ?thesis by simp
qed

section \<open>Storage failures: what every step keeps\<close>

lemma tripleI:
  "(\<And>s sig s'. P s \<Longrightarrow> f s = (sig, s') \<Longrightarrow> Q sig s') \<Longrightarrow> triple P f Q"
  by (simp add: triple_def)

lemma tripleD:
  "triple P f Q \<Longrightarrow> P s \<Longrightarrow> f s = (sig, s') \<Longrightarrow> Q sig s'"
  by (simp add: triple_def)

lemma triple_and_then:
  assumes a: "triple P a Q" and b: "triple (Q Normal) b Q"
  shows "triple P (and_then a b) Q"
proof (rule tripleI)
  fix s sig s'
  assume P: "P s" and r: "and_then a b s = (sig, s')"
  obtain sig1 s1 where 1: "a s = (sig1, s1)" by (cases "a s")
  from tripleD [OF a P 1] have q: "Q sig1 s1" .
  show "Q sig s'"
  proof (cases "sig1 = Normal")
    case True
    with r 1 have "b s1 = (sig, s')" by (simp add: and_then_def)
    with b q True show ?thesis by (auto dest: tripleD)
  next
    case False
    with r 1 have "sig = sig1" "s' = s1" by (simp_all add: and_then_def)
    with q show ?thesis by simp
  qed
qed

lemma triple_for_each:
  assumes "\<And>x. x \<in> set xs \<Longrightarrow> triple (Q Normal) (body x) Q"
  shows "triple (Q Normal) (for_each body xs) Q"
  using assms
proof (induction xs)
  case Nil
  show ?case by (rule tripleI) simp
next
  case (Cons x xs)
  have x: "triple (Q Normal) (body x) Q" by (rule Cons.prems) simp
  have xs: "triple (Q Normal) (for_each body xs) Q"
    by (rule Cons.IH) (simp add: Cons.prems)
  show ?case
  proof (rule tripleI)
    fix s sig s'
    assume P: "Q Normal s" and r: "for_each body (x # xs) s = (sig, s')"
    obtain sig1 s1 where 1: "body x s = (sig1, s1)" by (cases "body x s")
    from tripleD [OF x P 1] have q: "Q sig1 s1" .
    show "Q sig s'"
    proof (cases "sig1 = Normal")
      case True
      with r 1 have "for_each body xs s1 = (sig, s')" by simp
      with xs q True show ?thesis by (auto dest: tripleD)
    next
      case False
      with r 1 have "sig = sig1" "s' = s1" by simp_all
      with q show ?thesis by simp
    qed
  qed
qed

lemma clean_Suc:
  "clean W s \<Longrightarrow> \<not> fault W (calls s) \<Longrightarrow> calls s' = Suc (calls s) \<Longrightarrow> clean W s'"
  by (auto simp: clean_def less_Suc_eq)

lemma broken_Suc:
  "clean W s \<Longrightarrow> fault W (calls s) \<Longrightarrow> calls s' = Suc (calls s) \<Longrightarrow> broken W s'"
  by (auto simp: clean_def broken_def)

lemma storage_call_faults:
  assumes "\<And>s. calls (effect s) = calls s"
  shows "triple (clean W) (storage_call W effect) (faults_seen W)"
proof (rule tripleI)
  fix s sig s'
  assume c: "clean W s" and r: "storage_call W effect s = (sig, s')"
  show "faults_seen W sig s'"
  proof (cases "fault W (calls s)")
    case True
    with r have "sig = Raise SqliteError" "calls s' = Suc (calls s)"
      by (auto simp: storage_call_def)
    with broken_Suc [OF c True] show ?thesis by (simp add: faults_seen_def)
  next
    case False
    with r have "sig = Normal" "calls s' = Suc (calls s)"
      by (auto simp: storage_call_def assms)
    with clean_Suc [OF c False] show ?thesis by (simp add: faults_seen_def)
  qed
qed

lemma pure_step_faults:
  assumes "\<And>s. fst (f s) \<noteq> Raise SqliteError" and "\<And>s. calls (snd (f s)) = calls s"
  shows "triple (clean W) f (faults_seen W)"
proof (rule tripleI)
  fix s sig s'
  assume c: "clean W s" and r: "f s = (sig, s')"
  from assms [of s] r have "sig \<noteq> Raise SqliteError" "calls s' = calls s" by simp_all
  with c show "faults_seen W sig s'" by (simp add: faults_seen_def clean_def)
qed

lemma faults_seen_Normal [simp]: "faults_seen W Normal = clean W"
  by (simp add: faults_seen_def fun_eq_iff)

lemma faults_and_then:
  assumes "triple (clean W) a (faults_seen W)" and "triple (clean W) b (faults_seen W)"
  shows "triple (clean W) (and_then a b) (faults_seen W)"
  by (rule triple_and_then) (simp_all add: assms)

lemma faults_for_each:
  assumes "\<And>x. triple (clean W) (body x) (faults_seen W)"
  shows "triple (clean W) (for_each body xs) (faults_seen W)"
  using triple_for_each [where Q = "faults_seen W" and body = body and xs = xs]
  by (simp add: assms)

lemma executemany_faults: "triple (clean W) (executemany W batch) (faults_seen W)"
  unfolding executemany_def by (rule storage_call_faults) simp

lemma commit_faults: "triple (clean W) (commit W) (faults_seen W)"
  unfolding commit_def by (rule storage_call_faults) (simp split: option.splits)

lemma print_faults: "triple (clean W) (print m) (faults_seen W)"
  by (rule pure_step_faults) (simp_all add: print_def)

lemma setup_database_faults: "triple (clean W) (setup_database W) (faults_seen W)"
proof -
  have 1: "triple (clean W) (execute_create_table W) (faults_seen W)"
    unfolding execute_create_table_def by (rule storage_call_faults) simp
  have 2: "triple (clean W) (execute_create_index W) (faults_seen W)"
    unfolding execute_create_index_def by (rule storage_call_faults) simp
  show ?thesis
    unfolding setup_database_def
    by (rule faults_and_then [OF 1 faults_and_then [OF 2 faults_and_then [OF commit_faults print_faults]]])
qed

lemma process_record_faults: "triple (clean W) (process_record W bs r) (faults_seen W)"
proof (rule tripleI)
  fix s sig s'
  assume c: "clean W s" and r: "process_record W bs r s = (sig, s')"
  obtain phone uid where p: "r = (phone, uid)" by (cases r)
  let ?s1 = "s\<lparr>batch_data := batch_data s @ [(uid, phone)], total_records := total_records s + 1\<rparr>"
  have c1: "clean W ?s1" using c by (simp add: clean_def)
  show "faults_seen W sig s'"
  proof (cases "bs \<le> length (batch_data ?s1)")
    case True
    have 3: "triple (clean W)
        (\<lambda>s2. (Normal, (say (ImportedSoFar (total_records s2)) s2)\<lparr>batch_data := []\<rparr>))
        (faults_seen W)"
      by (rule pure_step_faults) simp_all
    have t: "triple (clean W)
       (and_then (executemany W (batch_data ?s1))
          (and_then (commit W)
            (\<lambda>s2. (Normal, (say (ImportedSoFar (total_records s2)) s2)\<lparr>batch_data := []\<rparr>))))
       (faults_seen W)"
      by (rule faults_and_then [OF executemany_faults faults_and_then [OF commit_faults 3]])
    from r p True have "and_then (executemany W (batch_data ?s1))
          (and_then (commit W)
            (\<lambda>s2. (Normal, (say (ImportedSoFar (total_records s2)) s2)\<lparr>batch_data := []\<rparr>))) ?s1
          = (sig, s')"
      by (simp add: process_record_def Let_def)
    from tripleD [OF t c1 this] show ?thesis .
  next
    case False
    with r p have "sig = Normal" "s' = ?s1" by (simp_all add: process_record_def Let_def)
    with c1 show ?thesis by simp
  qed
qed

lemma process_file_faults: "triple (clean W) (process_file W bs e) (faults_seen W)"
proof (rule tripleI)
  fix s sig s'
  assume c: "clean W s" and r: "process_file W bs e s = (sig, s')"
  let ?s1 = "say (ProcessingFile (fst e)) s"
  have c1: "clean W ?s1" using c by (simp add: clean_def)
  show "faults_seen W sig s'"
  proof (cases "snd e")
    case (Readable bytes)
    have t: "triple (clean W) (for_each (process_record W bs) (findall (is_decimal W) (decode W bytes)))
        (faults_seen W)"
      by (rule faults_for_each) (rule process_record_faults)
    from r Readable
    have "for_each (process_record W bs) (findall (is_decimal W) (decode W bytes)) ?s1 = (sig, s')"
      by (simp add: process_file_def)
    from tripleD [OF t c1 this] show ?thesis .
  next
    case Missing
    with r c1 show ?thesis by (auto simp: process_file_def faults_seen_def)
  next
    case Unreadable
    with r c1 show ?thesis by (auto simp: process_file_def faults_seen_def)
  qed
qed

lemma flush_remainder_faults: "triple (clean W) (flush_remainder W) (faults_seen W)"
proof (rule tripleI)
  fix s sig s'
  assume c: "clean W s" and r: "flush_remainder W s = (sig, s')"
  have t: "triple (clean W) (and_then (executemany W (batch_data s)) (commit W)) (faults_seen W)"
    by (rule faults_and_then [OF executemany_faults commit_faults])
  show "faults_seen W sig s'"
  proof (cases "batch_data s = []")
    case True
    with r c show ?thesis by (simp add: flush_remainder_def)
  next
    case False
    with r have "and_then (executemany W (batch_data s)) (commit W) s = (sig, s')"
      by (simp add: flush_remainder_def)
    from tripleD [OF t c this] show ?thesis .
  qed
qed

lemma import_files_faults: "triple (clean W) (import_files W bs files) (faults_seen W)"
proof (rule tripleI)
  fix s sig s'
  assume c: "clean W s" and r: "import_files W bs files s = (sig, s')"
  have l: "triple (clean W) (for_each (process_file W bs) files) (faults_seen W)"
    by (rule faults_for_each) (rule process_file_faults)
  have p: "triple (clean W) (\<lambda>s'. print (ImportComplete (total_records s')) s') (faults_seen W)"
    by (rule pure_step_faults) (simp_all add: print_def)
  have t: "triple (clean W)
      (and_then (for_each (process_file W bs) files)
         (and_then (flush_remainder W) (\<lambda>s'. print (ImportComplete (total_records s')) s')))
      (faults_seen W)"
    by (rule faults_and_then [OF l faults_and_then [OF flush_remainder_faults p]])
  have c0: "clean W (s\<lparr>total_records := 0, batch_data := []\<rparr>)"
    using c by (simp add: clean_def)
  from r have "and_then (for_each (process_file W bs) files)
         (and_then (flush_remainder W) (\<lambda>s'. print (ImportComplete (total_records s')) s'))
         (s\<lparr>total_records := 0, batch_data := []\<rparr>) = (sig, s')"
    by (simp add: import_files_def)
  from tripleD [OF t c0 this] show "faults_seen W sig s'" .
qed

lemma find_and_import_faults: "triple (clean W) (find_and_import W bs) (faults_seen W)"
proof (rule tripleI)
  fix s sig s'
  assume c: "clean W s" and r: "find_and_import W bs s = (sig, s')"
  have c1: "clean W (say NoFilesInDataDir s)" using c by (simp add: clean_def)
  have c2: "clean W (say NoFilesInCwd (say NoFilesInDataDir s))" using c by (simp add: clean_def)
  show "faults_seen W sig s'"
  proof (cases "glob_qb_txt (data_dir W) = []")
    case False
    with r have "import_files W bs (glob_qb_txt (data_dir W)) s = (sig, s')"
      by (simp add: find_and_import_def)
    from tripleD [OF import_files_faults c this] show ?thesis .
  next
    case True
    show ?thesis
    proof (cases "glob_qb_txt (cwd W) = []")
      case False
      with r True
      have "import_files W bs (glob_qb_txt (cwd W)) (say NoFilesInDataDir s) = (sig, s')"
        by (simp add: find_and_import_def)
      from tripleD [OF import_files_faults c1 this] show ?thesis .
    next
      case empty: True
      with r True have "sig = Return" "s' = say NoFilesInCwd (say NoFilesInDataDir s)"
        by (simp_all add: find_and_import_def)
      with c2 show ?thesis by (simp add: faults_seen_def)
    qed
  qed
qed

lemma try_body_faults:
  assumes "cwd W \<noteq> None"
  shows "triple (clean W) (try_body W bs) (faults_seen W)"
proof -
  have conn: "triple (clean W) (sqlite3_connect W) (faults_seen W)"
    unfolding sqlite3_connect_cwd [OF assms] by (rule storage_call_faults) simp
  show ?thesis
    unfolding try_body_def
    by (rule faults_and_then [OF conn faults_and_then [OF setup_database_faults find_and_import_faults]])
qed

lemma storage_call_conn:
  "(\<And>s. conn (effect s) = conn s) \<Longrightarrow> conn (snd (storage_call W effect s)) = conn s"
  by (simp add: storage_call_def)

lemma and_then_conn:
  "(\<And>s. conn (snd (a s)) = conn s) \<Longrightarrow> (\<And>s. conn (snd (b s)) = conn s)
    \<Longrightarrow> conn (snd (and_then a b s)) = conn s"
  by (simp add: and_then_def split_def Let_def)

lemma for_each_conn:
  "(\<And>x s. conn (snd (body x s)) = conn s) \<Longrightarrow> conn (snd (for_each body xs s)) = conn s"
  by (induction xs arbitrary: s) (simp_all add: split_def Let_def)

lemma executemany_conn: "conn (snd (executemany W batch s)) = conn s"
  unfolding executemany_def by (rule storage_call_conn) simp

lemma commit_conn: "conn (snd (commit W s)) = conn s"
  unfolding commit_def by (rule storage_call_conn) (simp split: option.splits)

lemma setup_database_conn: "conn (snd (setup_database W s)) = conn s"
  unfolding setup_database_def execute_create_table_def execute_create_index_def
  by (intro and_then_conn storage_call_conn commit_conn) (simp_all add: print_def)

lemma process_record_conn: "conn (snd (process_record W bs r s)) = conn s"
proof -
  obtain phone uid where r: "r = (phone, uid)" by (cases r)
  have "conn (snd (and_then (executemany W b)
          (and_then (commit W)
            (\<lambda>s2. (Normal, (say (ImportedSoFar (total_records s2)) s2)\<lparr>batch_data := []\<rparr>))) s1))
        = conn s1" for b s1
    by (intro and_then_conn executemany_conn commit_conn) simp
  then show ?thesis
    by (simp add: process_record_def r Let_def)
qed

lemma process_file_conn: "conn (snd (process_file W bs e s)) = conn s"
  by (cases "snd e") (simp_all add: process_file_def for_each_conn process_record_conn)

lemma flush_remainder_conn: "conn (snd (flush_remainder W s)) = conn s"
proof -
  have "conn (snd (and_then (executemany W b) (commit W) s)) = conn s" for b
    by (intro and_then_conn executemany_conn commit_conn)
  then show ?thesis by (simp add: flush_remainder_def)
qed

lemma import_files_conn: "conn (snd (import_files W bs files s)) = conn s"
proof -
  have "conn (snd (and_then (for_each (process_file W bs) files)
       (and_then (flush_remainder W) (\<lambda>s'. print (ImportComplete (total_records s')) s')) s0))
     = conn s0" for s0
    by (intro and_then_conn for_each_conn process_file_conn flush_remainder_conn)
       (simp add: print_def)
  then show ?thesis by (simp add: import_files_def)
qed

lemma find_and_import_conn: "conn (snd (find_and_import W bs s)) = conn s"
  by (simp add: find_and_import_def Let_def import_files_conn)

lemma try_body_conn_or_txn:
  assumes "txn s = None"
  shows "conn (snd (try_body W bs s)) = Open \<or> txn (snd (try_body W bs s)) = None"
proof (cases "cwd W = None \<or> fault W (calls s)")
  case True
  then have "try_body W bs s = (Raise SqliteError, s\<lparr>calls := Suc (calls s)\<rparr>)"
    by (auto simp: try_body_def and_then_def sqlite3_connect_def storage_call_def)
  with assms show ?thesis by simp
next
  case False
  let ?s1 = "s\<lparr>calls := Suc (calls s), conn := Open\<rparr>"
  from False have "try_body W bs s = and_then (setup_database W) (find_and_import W bs) ?s1"
    by (auto simp: try_body_def and_then_def sqlite3_connect_def storage_call_def)
  moreover have "conn (snd (and_then (setup_database W) (find_and_import W bs) ?s1)) = conn ?s1"
    by (intro and_then_conn setup_database_conn find_and_import_conn)
  ultimately show ?thesis by simp
qed

lemma handlers_fields [simp]:
  "conn (snd (handlers x)) = conn (snd x)" "txn (snd (handlers x)) = txn (snd x)"
  "calls (snd (handlers x)) = calls (snd x)" "disk (snd (handlers x)) = disk (snd x)"
  by (cases x rule: handlers.cases; simp)+

lemma close_fields [simp]:
  "calls (close s) = calls s" "stdout (close s) = stdout s" "disk (close s) = disk s"
  "conn (close s) \<noteq> Open"
  by (simp_all add: close_def)

section \<open>Two runs from two databases\<close>

lemma in_stepI:
  "(\<And>s s'. R s s' \<Longrightarrow> fst (f s) = fst (f s') \<and> R (snd (f s)) (snd (f s'))) \<Longrightarrow> in_step R f"
  by (simp add: in_step_def)

lemma in_stepD:
  "in_step R f \<Longrightarrow> R s s' \<Longrightarrow> fst (f s) = fst (f s') \<and> R (snd (f s)) (snd (f s'))"
  by (simp add: in_step_def)

lemma in_step_and_then:
  assumes "in_step R a" and "in_step R b"
  shows "in_step R (and_then a b)"
proof (rule in_stepI)
  fix s s'
  assume "R s s'"
  from in_stepD [OF assms(1) this]
  have 1: "fst (a s) = fst (a s')" "R (snd (a s)) (snd (a s'))" by simp_all
  from in_stepD [OF assms(2) 1(2)] 1
  show "fst (and_then a b s) = fst (and_then a b s') \<and> R (snd (and_then a b s)) (snd (and_then a b s'))"
    by (simp add: and_then_def split_def Let_def)
qed

lemma in_step_for_each:
  assumes "\<And>x. in_step R (body x)"
  shows "in_step R (for_each body xs)"
proof (induction xs)
  case Nil
  show ?case by (rule in_stepI) simp
next
  case (Cons x xs)
  show ?case
  proof (rule in_stepI)
    fix s s'
    assume "R s s'"
    from in_stepD [OF assms this]
    have 1: "fst (body x s) = fst (body x s')" "R (snd (body x s)) (snd (body x s'))" by simp_all
    from in_stepD [OF Cons 1(2)] 1
    show "fst (for_each body (x # xs) s) = fst (for_each body (x # xs) s')
        \<and> R (snd (for_each body (x # xs) s)) (snd (for_each body (x # xs) s'))"
      by (simp add: split_def Let_def)
  qed
qed

lemma shifted_upsert:
  assumes "shifted b b' m m'"
  shows "shifted b b' (foldl insert_or_replace m batch) (foldl insert_or_replace m' batch)"
proof -
  from assms obtain M where "m = b ++ M" "m' = b' ++ M" by (auto simp: shifted_def)
  then have "foldl insert_or_replace m batch = b ++ (M ++ map_of (rev batch))"
    "foldl insert_or_replace m' batch = b' ++ (M ++ map_of (rev batch))"
    by (simp_all add: foldl_insert_or_replace upsert_one_by_one_map_add)
  then show ?thesis unfolding shifted_def by blast
qed

lemma in_step_storage_call:
  assumes "\<And>s s'. same_run d d' s s' \<Longrightarrow> same_run d d' (effect s) (effect s')"
  shows "in_step (same_run d d') (storage_call W effect)"
proof (rule in_stepI)
  fix s s'
  assume r: "same_run d d' s s'"
  then have c: "calls s = calls s'" by (simp add: same_run_def)
  from r have "same_run d d' (s\<lparr>calls := Suc (calls s)\<rparr>) (s'\<lparr>calls := Suc (calls s')\<rparr>)"
    by (simp add: same_run_def)
  with assms c
  show "fst (storage_call W effect s) = fst (storage_call W effect s')
      \<and> same_run d d' (snd (storage_call W effect s)) (snd (storage_call W effect s'))"
    by (simp add: storage_call_def)
qed

lemma same_run_say: "same_run d d' s s' \<Longrightarrow> same_run d d' (say m s) (say m s')"
  by (simp add: same_run_def)

lemma raised_True [simp]: "raised x x' True True"
  unfolding raised_def by (rule exI [of _ True]) simp

lemma shifted_txn_simps [simp]:
  "shifted_txn b b' None x' = (x' = None)"
  "shifted_txn b b' (Some t) (Some t') = shifted b b' t t'"
  "shifted_txn b b' (Some t) None = False"
  by (simp_all add: shifted_txn_def)

lemma shifted_current:
  assumes "shifted b b' m m'" and "shifted_txn b b' x x'"
  shows "shifted b b' (case x of None \<Rightarrow> m | Some t \<Rightarrow> t) (case x' of None \<Rightarrow> m' | Some t \<Rightarrow> t)"
  using assms by (cases x; cases x') simp_all

lemma in_step_executemany: "in_step (same_run d d') (executemany W batch)"
  unfolding executemany_def
proof (rule in_step_storage_call)
  fix s s'
  assume r: "same_run d d' s s'"
  let ?c = "case txn s of None \<Rightarrow> rows (disk s) | Some t \<Rightarrow> t"
  let ?c' = "case txn s' of None \<Rightarrow> rows (disk s') | Some t \<Rightarrow> t"
  from r have "shifted (rows d) (rows d') ?c ?c'"
    by (intro shifted_current) (simp_all add: same_run_def)
  from shifted_upsert [OF this, of batch] r
  show "same_run d d' (s\<lparr>txn := Some (foldl insert_or_replace ?c batch)\<rparr>)
          (s'\<lparr>txn := Some (foldl insert_or_replace ?c' batch)\<rparr>)"
    by (simp add: same_run_def)
qed

lemma in_step_commit: "in_step (same_run d d') (commit W)"
  unfolding commit_def
proof (rule in_step_storage_call)
  fix s s'
  assume r: "same_run d d' s s'"
  then have t: "shifted_txn (rows d) (rows d') (txn s) (txn s')" by (simp add: same_run_def)
  show "same_run d d' (case txn s of None \<Rightarrow> s | Some t \<Rightarrow> s\<lparr>disk := (disk s)\<lparr>rows := t\<rparr>, txn := None\<rparr>)
          (case txn s' of None \<Rightarrow> s' | Some t \<Rightarrow> s'\<lparr>disk := (disk s')\<lparr>rows := t\<rparr>, txn := None\<rparr>)"
  proof (cases "txn s")
    case None
    with t r show ?thesis by simp
  next
    case (Some a)
    with t obtain a' where "txn s' = Some a'" "shifted (rows d) (rows d') a a'"
      by (cases "txn s'") simp_all
    with Some r show ?thesis by (simp add: same_run_def)
  qed
qed

lemma in_step_print: "in_step (same_run d d') (print m)"
  unfolding print_def by (rule in_stepI) (simp add: same_run_say)

lemma in_step_setup_database: "in_step (same_run d d') (setup_database W)"
proof -
  have 1: "in_step (same_run d d') (execute_create_table W)"
    unfolding execute_create_table_def
    by (rule in_step_storage_call) (simp add: same_run_def)
  have 2: "in_step (same_run d d') (execute_create_index W)"
    unfolding execute_create_index_def
    by (rule in_step_storage_call) (simp add: same_run_def)
  show ?thesis
    unfolding setup_database_def
    by (intro in_step_and_then 1 2 in_step_commit in_step_print)
qed

lemma in_step_process_record: "in_step (same_run d d') (process_record W bs r)"
proof (rule in_stepI)
  fix s s'
  assume r: "same_run d d' s s'"
  obtain phone uid where p: "r = (phone, uid)" by (cases r)
  let ?u = "\<lambda>s. s\<lparr>batch_data := batch_data s @ [(uid, phone)], total_records := total_records s + 1\<rparr>"
  let ?flush = "\<lambda>b. and_then (executemany W b)
          (and_then (commit W)
            (\<lambda>s2. (Normal, (say (ImportedSoFar (total_records s2)) s2)\<lparr>batch_data := []\<rparr>)))"
  from r have b: "batch_data s = batch_data s'" by (simp add: same_run_def)
  from r have u: "same_run d d' (?u s) (?u s')" by (simp add: same_run_def)
  have 3: "in_step (same_run d d')
      (\<lambda>s2. (Normal, (say (ImportedSoFar (total_records s2)) s2)\<lparr>batch_data := []\<rparr>))"
    by (rule in_stepI) (simp add: same_run_def)
  have "in_step (same_run d d') (?flush (batch_data (?u s)))"
    by (intro in_step_and_then in_step_executemany in_step_commit 3)
  from in_stepD [OF this u]
  have f: "fst (?flush (batch_data (?u s)) (?u s)) = fst (?flush (batch_data (?u s)) (?u s'))"
    "same_run d d' (snd (?flush (batch_data (?u s)) (?u s))) (snd (?flush (batch_data (?u s)) (?u s')))"
    by simp_all
  show "fst (process_record W bs r s) = fst (process_record W bs r s')
      \<and> same_run d d' (snd (process_record W bs r s)) (snd (process_record W bs r s'))"
  proof (cases "bs \<le> length (batch_data (?u s))")
    case True
    then have "process_record W bs r s = ?flush (batch_data (?u s)) (?u s)"
      "process_record W bs r s' = ?flush (batch_data (?u s)) (?u s')"
      using b by (simp_all add: process_record_def p Let_def)
    with f show ?thesis by simp
  next
    case False
    then have "process_record W bs r s = (Normal, ?u s)" "process_record W bs r s' = (Normal, ?u s')"
      using b by (simp_all add: process_record_def p Let_def)
    with u show ?thesis by simp
  qed
qed

lemma in_step_process_file: "in_step (same_run d d') (process_file W bs e)"
proof (rule in_stepI)
  fix s s'
  assume r: "same_run d d' s s'"
  then have 1: "same_run d d' (say (ProcessingFile (fst e)) s) (say (ProcessingFile (fst e)) s')"
    by (rule same_run_say)
  show "fst (process_file W bs e s) = fst (process_file W bs e s')
      \<and> same_run d d' (snd (process_file W bs e s)) (snd (process_file W bs e s'))"
  proof (cases "snd e")
    case (Readable bytes)
    have "in_step (same_run d d')
        (for_each (process_record W bs) (findall (is_decimal W) (decode W bytes)))"
      by (rule in_step_for_each) (rule in_step_process_record)
    from in_stepD [OF this 1] Readable show ?thesis
      by (simp add: process_file_def)
  next
    case Missing
    with 1 show ?thesis by (simp add: process_file_def)
  next
    case Unreadable
    with 1 show ?thesis by (simp add: process_file_def)
  qed
qed

lemma in_step_flush_remainder: "in_step (same_run d d') (flush_remainder W)"
proof (rule in_stepI)
  fix s s'
  assume r: "same_run d d' s s'"
  then have b: "batch_data s = batch_data s'" by (simp add: same_run_def)
  have "in_step (same_run d d') (and_then (executemany W (batch_data s)) (commit W))"
    by (intro in_step_and_then in_step_executemany in_step_commit)
  from in_stepD [OF this r] r b
  show "fst (flush_remainder W s) = fst (flush_remainder W s')
      \<and> same_run d d' (snd (flush_remainder W s)) (snd (flush_remainder W s'))"
    by (simp add: flush_remainder_def)
qed

lemma in_step_import_files: "in_step (same_run d d') (import_files W bs files)"
proof (rule in_stepI)
  fix s s'
  assume r: "same_run d d' s s'"
  let ?z = "\<lambda>s. s\<lparr>total_records := 0, batch_data := []\<rparr>"
  from r have z: "same_run d d' (?z s) (?z s')" by (simp add: same_run_def)
  have p: "in_step (same_run d d') (\<lambda>s'. print (ImportComplete (total_records s')) s')"
    by (rule in_stepI) (simp add: print_def same_run_def)
  have "in_step (same_run d d')
      (and_then (for_each (process_file W bs) files)
         (and_then (flush_remainder W) (\<lambda>s'. print (ImportComplete (total_records s')) s')))"
    by (intro in_step_and_then in_step_for_each in_step_process_file in_step_flush_remainder p)
  from in_stepD [OF this z]
  show "fst (import_files W bs files s) = fst (import_files W bs files s')
      \<and> same_run d d' (snd (import_files W bs files s)) (snd (import_files W bs files s'))"
    by (simp add: import_files_def)
qed

lemma in_step_find_and_import: "in_step (same_run d d') (find_and_import W bs)"
proof (rule in_stepI)
  fix s s'
  assume r: "same_run d d' s s'"
  note 1 = same_run_say [OF r, of NoFilesInDataDir]
  note 2 = same_run_say [OF 1, of NoFilesInCwd]
  note a = in_stepD [OF in_step_import_files [of d d' W bs] r]
  note b = in_stepD [OF in_step_import_files [of d d' W bs] 1]
  show "fst (find_and_import W bs s) = fst (find_and_import W bs s')
      \<and> same_run d d' (snd (find_and_import W bs s)) (snd (find_and_import W bs s'))"
    using a b 2 by (simp add: find_and_import_def Let_def)
qed

lemma in_step_try_body: "in_step (same_run d d') (try_body W bs)"
proof -
  have "in_step (same_run d d') (sqlite3_connect W)"
  proof (cases "cwd W = None")
    case True
    show ?thesis
      by (rule in_stepI) (simp add: sqlite3_connect_def True same_run_def)
  next
    case False
    show ?thesis
      unfolding sqlite3_connect_cwd [OF False]
      by (rule in_step_storage_call) (simp add: same_run_def)
  qed
  then show ?thesis
    unfolding try_body_def
    by (intro in_step_and_then in_step_setup_database in_step_find_and_import)
qed

lemma same_run_initial: "same_run d d' (say Connecting (initial d)) (say Connecting (initial d'))"
proof -
  have "shifted (rows d) (rows d') (rows d) (rows d')"
    unfolding shifted_def by (rule exI [of _ Map.empty]) simp
  moreover have "raised x x' x x'" for x x'
    unfolding raised_def by (rule exI [of _ False]) simp
  ultimately show ?thesis by (simp add: same_run_def initial_def)
qed

lemma same_run_final:
  "same_run d d' (snd (import_with bs W d)) (snd (import_with bs W d'))"
proof -
  obtain sg s1 where b: "try_body W bs (say Connecting (initial d)) = (sg, s1)"
    by (cases "try_body W bs (say Connecting (initial d))")
  obtain sg' s1' where b': "try_body W bs (say Connecting (initial d')) = (sg', s1')"
    by (cases "try_body W bs (say Connecting (initial d'))")
  from in_stepD [OF in_step_try_body [of d d' W bs] same_run_initial [of d d']] b b'
  have sig: "sg' = sg" and r: "same_run d d' s1 s1'" by simp_all
  have "same_run d d' (snd (handlers (sg, s1))) (snd (handlers (sg, s1')))"
    using r by (cases "(sg, s1)" rule: handlers.cases) (simp_all add: same_run_say)
  then have "same_run d d' (close (snd (handlers (sg, s1)))) (close (snd (handlers (sg, s1'))))"
    by (simp add: same_run_def close_def)
  then show ?thesis
    by (simp add: import_with_def split_def Let_def b b' sig)
qed

lemma rerun_same_world:
  "disk (snd (import_with bs W (disk (snd (import_with bs W d))))) = disk (snd (import_with bs W d))"
proof -
  let ?d1 = "disk (snd (import_with bs W d))"
  let ?d2 = "disk (snd (import_with bs W ?d1))"
  from same_run_final [of d ?d1 bs W]
  have r: "shifted (rows d) (rows ?d1) (rows ?d1) (rows ?d2)"
    and t: "raised (has_table d) (has_table ?d1) (has_table ?d1) (has_table ?d2)"
    and i: "raised (has_index d) (has_index ?d1) (has_index ?d1) (has_index ?d2)"
    by (simp_all add: same_run_def)
  from r obtain M where m: "rows ?d1 = rows d ++ M" "rows ?d2 = rows ?d1 ++ M"
    by (auto simp: shifted_def)
  then have "rows ?d2 = (rows d ++ M) ++ M" by simp
  also have "\<dots> = rows d ++ M"
    by (rule ext) (simp add: map_add_def split: option.splits)
  finally have 1: "rows ?d2 = rows ?d1" using m(1) by simp
  from t have 2: "has_table ?d2 = has_table ?d1" by (auto simp: raised_def)
  from i have 3: "has_index ?d2 = has_index ?d1" by (auto simp: raised_def)
  from 1 2 3 show ?thesis by (intro db.equality) simp_all
qed

section \<open>Storage failures: what the store holds\<close>

lemma aborted_more: "aborted bs d seen s \<Longrightarrow> aborted bs d (seen @ rest) s"
  by (simp add: aborted_def)

lemma batched_say [simp]: "batched bs d k seen (say m s) = batched bs d k seen s"
  by (simp add: batched_def)

lemma process_record_batches:
  assumes b: "batched bs d k seen s" and r: "process_record W bs r s = (sig, s')"
  shows "batches bs d (seen @ [canonical r]) sig s'"
proof -
  obtain phone uid where p: "r = (phone, uid)" by (cases r)
  let ?c = "(uid, phone)"
  let ?s1 = "s\<lparr>batch_data := batch_data s @ [?c], total_records := total_records s + 1\<rparr>"
  from b [unfolded batched_def] have t: "txn s = None" and c: "calls s = 4 + 2 * k"
    and l: "length seen = k * bs + length (batch_data s)" and lt: "length (batch_data s) < bs"
    and bd: "batch_data s = drop (k * bs) seen"
    and rw: "rows (disk s) = upsert_one_by_one (rows d) (take (k * bs) seen)"
    by blast+
  from l have le: "k * bs \<le> length seen" by simp
  have whole: "take (k * bs) seen @ batch_data s = seen" by (simp add: bd)
  show ?thesis
  proof (cases "bs \<le> length (batch_data ?s1)")
    case False
    with r p have sig: "sig = Normal" and s': "s' = ?s1" by (simp_all add: process_record_def Let_def)
    have "batched bs d k (seen @ [?c]) ?s1"
      using t c l lt bd rw le False by (simp add: batched_def)
    with sig s' p show ?thesis by (auto simp: batches_def canonical_def)
  next
    case True
    with lt have full: "Suc (length (batch_data s)) = bs" by simp
    show ?thesis
    proof (cases "fault W (calls s)")
      case f1: True
      with r p True have sig: "sig = Raise SqliteError" and s': "s' = ?s1\<lparr>calls := Suc (calls s)\<rparr>"
        by (auto simp: process_record_def Let_def and_then_def executemany_def storage_call_def)
      have "aborted bs d (seen @ [?c]) s'"
        using c rw le by (simp add: aborted_def s')
      with sig p show ?thesis by (simp add: batches_def canonical_def)
    next
      case f1: False
      show ?thesis
      proof (cases "fault W (Suc (calls s))")
        case f2: True
        with r p True f1 have sig: "sig = Raise SqliteError"
          and cs: "calls s' = Suc (Suc (calls s))" and ds: "disk s' = disk s"
          by (auto simp: process_record_def Let_def and_then_def executemany_def commit_def
                storage_call_def)
        have "aborted bs d (seen @ [?c]) s'"
          using c rw le by (simp add: aborted_def cs ds)
        with sig p show ?thesis by (simp add: batches_def canonical_def)
      next
        case f2: False
        with r p True f1 t have sig: "sig = Normal"
          and cs: "calls s' = Suc (Suc (calls s))" and ts: "txn s' = None"
          and bs': "batch_data s' = []"
          and ds: "rows (disk s') = upsert_one_by_one (rows (disk s)) (batch_data s @ [?c])"
          by (auto simp: process_record_def Let_def and_then_def executemany_def commit_def
                storage_call_def foldl_insert_or_replace upsert_one_by_one_append
                insert_or_replace_def)
        have len: "length (seen @ [?c]) = Suc k * bs"
          using l full by simp
        have "rows (disk s') = upsert_one_by_one (rows d) (take (k * bs) seen @ batch_data s @ [?c])"
          by (simp only: ds rw upsert_one_by_one_append)
        also have "take (k * bs) seen @ batch_data s @ [?c] = seen @ [?c]"
          using whole by (simp only: append_assoc [symmetric])
        finally have rw': "rows (disk s') = upsert_one_by_one (rows d) (seen @ [?c])" .
        have "batched bs d (Suc k) (seen @ [?c]) s'"
          unfolding batched_def using ts cs c bs' len rw' lt
          by (simp del: mult_Suc)
        with sig p show ?thesis by (auto simp: batches_def canonical_def)
      qed
    qed
  qed
qed

lemma records_batches:
  assumes "batched bs d k seen s" and "for_each (process_record W bs) rs s = (sig, s')"
  shows "batches bs d (seen @ map canonical rs) sig s'"
  using assms
proof (induction rs arbitrary: s k seen)
  case Nil
  then show ?case by (auto simp: batches_def)
next
  case (Cons r rs)
  obtain sig1 s1 where 1: "process_record W bs r s = (sig1, s1)"
    by (cases "process_record W bs r s")
  note b1 = process_record_batches [OF Cons.prems(1) 1]
  show ?case
  proof (cases "sig1 = Normal")
    case True
    with b1 obtain k' where k': "batched bs d k' (seen @ [canonical r]) s1"
      by (auto simp: batches_def)
    from Cons.prems(2) 1 True have "for_each (process_record W bs) rs s1 = (sig, s')" by simp
    from Cons.IH [OF k' this] show ?thesis by simp
  next
    case False
    with Cons.prems(2) 1 have e: "sig = sig1" "s' = s1" by simp_all
    have "aborted bs d ((seen @ [canonical r]) @ map canonical rs) s1"
      if "sig1 = Raise SqliteError"
    proof (rule aborted_more)
      from b1 that show "aborted bs d (seen @ [canonical r]) s1" by (simp add: batches_def)
    qed
    with False e show ?thesis by (simp add: batches_def)
  qed
qed

lemma process_file_batches:
  assumes "batched bs d k seen s" and "process_file W bs e s = (sig, s')"
  shows "batches bs d (seen @ map canonical (matches_of W (snd e))) sig s'"
proof (cases "snd e")
  case (Readable bytes)
  with assms(2) have "for_each (process_record W bs) (findall (is_decimal W) (decode W bytes))
      (say (ProcessingFile (fst e)) s) = (sig, s')"
    by (simp add: process_file_def)
  from records_batches [OF _ this, of d k seen] assms(1) Readable show ?thesis
    by (simp add: matches_of_def)
next
  case Missing
  with assms(2) show ?thesis by (auto simp: process_file_def batches_def)
next
  case Unreadable
  with assms(2) show ?thesis by (auto simp: process_file_def batches_def)
qed

lemma files_batches:
  assumes "batched bs d k seen s" and "for_each (process_file W bs) files s = (sig, s')"
  shows "batches bs d (seen @ map canonical (all_matches W files)) sig s'"
  using assms
proof (induction files arbitrary: s k seen)
  case Nil
  then show ?case by (auto simp: batches_def all_matches_def)
next
  case (Cons e files)
  obtain sig1 s1 where 1: "process_file W bs e s = (sig1, s1)"
    by (cases "process_file W bs e s")
  note b1 = process_file_batches [OF Cons.prems(1) 1]
  have am: "all_matches W (e # files) = matches_of W (snd e) @ all_matches W files"
    by (simp add: all_matches_def)
  show ?case
  proof (cases "sig1 = Normal")
    case True
    with b1 obtain k' where k': "batched bs d k' (seen @ map canonical (matches_of W (snd e))) s1"
      by (auto simp: batches_def)
    from Cons.prems(2) 1 True have "for_each (process_file W bs) files s1 = (sig, s')" by simp
    from Cons.IH [OF k' this] show ?thesis by (simp add: am)
  next
    case False
    with Cons.prems(2) 1 have e: "sig = sig1" "s' = s1" by simp_all
    have "aborted bs d ((seen @ map canonical (matches_of W (snd e)))
        @ map canonical (all_matches W files)) s1"
      if "sig1 = Raise SqliteError"
    proof (rule aborted_more)
      from b1 that show "aborted bs d (seen @ map canonical (matches_of W (snd e))) s1"
        by (simp add: batches_def)
    qed
    with False e show ?thesis by (simp add: batches_def am)
  qed
qed

lemma flush_remainder_aborted:
  assumes b: "batched bs d k seen s" and r: "flush_remainder W s = (Raise SqliteError, s')"
  shows "aborted bs d seen s'"
proof -
  from b [unfolded batched_def] have c: "calls s = 4 + 2 * k"
    and l: "length seen = k * bs + length (batch_data s)"
    and rw: "rows (disk s) = upsert_one_by_one (rows d) (take (k * bs) seen)"
    by blast+
  from l have le: "k * bs \<le> length seen" by simp
  from r have "disk s' = disk s \<and> (calls s' = Suc (calls s) \<or> calls s' = Suc (Suc (calls s)))"
    by (auto simp: flush_remainder_def and_then_def executemany_def commit_def storage_call_def
          split: if_splits)
  then have d: "disk s' = disk s" and "calls s' = 5 + 2 * k \<or> calls s' = 6 + 2 * k"
    using c by auto
  then have "(calls s' - 5) div 2 = k" by auto
  with d rw le show ?thesis
    by (simp add: aborted_def)
qed

lemma import_files_aborted:
  assumes "0 < bs" and "txn s = None" and "calls s = 4" and "rows (disk s) = rows d"
    and r: "import_files W bs files s = (Raise SqliteError, s')"
  shows "aborted bs d (map canonical (all_matches W files)) s'"
proof -
  let ?s0 = "s\<lparr>total_records := 0, batch_data := []\<rparr>"
  have b0: "batched bs d 0 [] ?s0"
    using assms(1-4) by (simp add: batched_def)
  obtain sig1 s1 where 1: "for_each (process_file W bs) files ?s0 = (sig1, s1)"
    by (cases "for_each (process_file W bs) files ?s0")
  from files_batches [OF b0 1]
  have b1: "batches bs d (map canonical (all_matches W files)) sig1 s1" by simp
  show ?thesis
  proof (cases "sig1 = Normal")
    case True
    with b1 obtain k where k: "batched bs d k (map canonical (all_matches W files)) s1"
      by (auto simp: batches_def)
    obtain sig2 s2 where 2: "flush_remainder W s1 = (sig2, s2)"
      by (cases "flush_remainder W s1")
    from r 1 2 True have "sig2 = Raise SqliteError" "s' = s2"
      by (auto simp: import_files_def and_then_def print_def split: if_splits)
    with flush_remainder_aborted [OF k] 2 show ?thesis by simp
  next
    case False
    with r 1 have "sig1 = Raise SqliteError" "s' = s1"
      by (simp_all add: import_files_def and_then_def)
    with b1 show ?thesis by (simp add: batches_def)
  qed
qed

lemma find_and_import_aborted:
  assumes "0 < bs" and "txn s = None" and "calls s = 4" and "rows (disk s) = rows d"
    and r: "find_and_import W bs s = (Raise SqliteError, s')"
  shows "aborted bs d (records_in_order W) s'"
proof -
  from r obtain s0 where i: "import_files W bs (selected_files W) s0 = (Raise SqliteError, s')"
    and s0: "s0 = s \<or> s0 = say NoFilesInDataDir s"
    by (auto simp: find_and_import_def selected_files_def Let_def split: if_splits)
  from s0 assms(2-4) have "txn s0 = None" "calls s0 = 4" "rows (disk s0) = rows d" by auto
  from import_files_aborted [OF assms(1) this i] show ?thesis
    by (simp add: records_in_order_def)
qed

lemma setup_database_Raise:
  assumes "setup_database W s = (Raise e, s')"
  shows "rows (disk s') = rows (disk s) \<and> calls s' \<le> calls s + 3"
  using assms
  by (auto simp: setup_database_def and_then_def execute_create_table_def
        execute_create_index_def commit_def storage_call_def print_def
        split: if_splits prod.splits option.splits)

lemma try_body_aborted:
  assumes "0 < bs" and "txn s = None" and "calls s = 0"
    and r: "try_body W bs s = (Raise SqliteError, s')"
  shows "aborted bs (disk s) (records_in_order W) s'"
proof (cases "cwd W = None \<or> fault W 0")
  case True
  with r assms(3) have "s' = s\<lparr>calls := Suc 0\<rparr>"
    by (auto simp: try_body_def and_then_def sqlite3_connect_def storage_call_def
          split: if_splits)
  then show ?thesis by (simp add: aborted_def)
next
  case False
  let ?s1 = "s\<lparr>calls := Suc 0, conn := Open\<rparr>"
  from False assms(3) have c: "sqlite3_connect W s = (Normal, ?s1)"
    by (auto simp: sqlite3_connect_def storage_call_def)
  obtain sig2 s2 where 2: "setup_database W ?s1 = (sig2, s2)"
    by (cases "setup_database W ?s1")
  show ?thesis
  proof (cases "sig2 = Normal")
    case True
    from assms(2) have "txn ?s1 = None" by simp
    note s2 = setup_database_Normal [OF 2 [unfolded True] this]
    from r c 2 True have f: "find_and_import W bs s2 = (Raise SqliteError, s')"
      by (simp add: try_body_def and_then_def)
    from s2 assms(2) have "txn s2 = None" "calls s2 = 4" "rows (disk s2) = rows (disk s)"
      by simp_all
    from find_and_import_aborted [OF assms(1) this f] show ?thesis .
  next
    case False
    with r c 2 have e: "sig2 = Raise SqliteError" "s' = s2"
      by (simp_all add: try_body_def and_then_def)
    from setup_database_Raise [OF 2 [unfolded e(1)]] e(2) show ?thesis
      by (simp add: aborted_def)
  qed
qed

section \<open>The extractor and the remapper\<close>

text \<open>
  C5. The hyphen is no decimal digit. Then, for every text, the list that the extractor
  yields is the list of its non-overlapping matches from left to right, and no other
  list is; a text in which no match begins anywhere yields the empty list. The extractor
  is a total function: it raises nothing.
\<close>

theorem extractor_yields_the_matches:
  assumes "\<not> dg hyphen"
  shows "(extracts dg s ms \<longleftrightarrow> ms = findall dg s)
    \<and> ((\<forall>n. \<not> match_starts dg (drop n s)) \<longrightarrow> findall dg s = [])"
  using assms findall_extracts [of dg s] extracts_findall [of dg s ms] findall_no_match [of dg s]
  by blast

theorem extractor_yields_the_matches_witness:
  "extracts ascii_digit (cps ''a12----34----56 7-----8 9----0'')
     [(cps ''12'', cps ''34''), (cps ''9'', cps ''0'')]
   \<and> findall ascii_digit (cps ''12-34 ---- 56'') = []"
proof -
  have h: "\<not> ascii_digit hyphen" by (simp add: ascii_digit_def hyphen_def)
  have f: "findall ascii_digit (cps ''a12----34----56 7-----8 9----0'')
      = [(cps ''12'', cps ''34''), (cps ''9'', cps ''0'')]"
    by (simp add: world_defs match_at_def match_rest_def hyphens_def hyphen_def)
  have "extracts ascii_digit (cps ''a12----34----56 7-----8 9----0'')
     [(cps ''12'', cps ''34''), (cps ''9'', cps ''0'')]"
    using extractor_yields_the_matches [of ascii_digit "cps ''a12----34----56 7-----8 9----0''"
        "[(cps ''12'', cps ''34''), (cps ''9'', cps ''0'')]"] h f
    by simp
  moreover have "findall ascii_digit (cps ''12-34 ---- 56'') = []"
    by (simp add: world_defs match_at_def match_rest_def hyphens_def hyphen_def)
  ultimately show ?thesis by blast
qed

text \<open>
  C1. In a run that completes, take a pair \<open>(A, B)\<close> matched in an input file. Its record
  has key \<open>B\<close> and value \<open>A\<close>. After the run the store has a row with key \<open>B\<close>, whose
  value is the left-hand token of a pair matched with \<open>B\<close>, hence \<open>A\<close> when \<open>B\<close> is matched
  with no other token. A key that is the right-hand token of no match is not written: no
  row is stored in pattern order. And a file whose text is \<^verbatim>\<open><A0>----<B0>\<close>, two strings of
  digits, has the one matched pair \<open>(A0, B0)\<close>.
\<close>

theorem matched_pair_is_stored_reversed:
  assumes "exit_status (fst (import_with batch_size W d)) = 0"
    and "(name, Readable bytes) \<in> set (selected_files W)"
    and "(A, B) \<in> set (findall (is_decimal W) (decode W bytes))"
  shows "(B, A) \<in> set (records_in_order W)
    \<and> (\<exists>A'. (A', B) \<in> set (all_matches W (selected_files W))
          \<and> rows (disk (snd (import_with batch_size W d))) B = Some A')
    \<and> ((\<forall>A'. (A', B) \<in> set (all_matches W (selected_files W)) \<longrightarrow> A' = A)
          \<longrightarrow> rows (disk (snd (import_with batch_size W d))) B = Some A)
    \<and> (\<forall>k. k \<notin> snd ` set (all_matches W (selected_files W))
          \<longrightarrow> rows (disk (snd (import_with batch_size W d))) k = rows d k)
    \<and> (\<not> is_decimal W hyphen \<and> digits (is_decimal W) A0 \<and> digits (is_decimal W) B0
          \<and> decode W bytes = A0 @ hyphens @ B0
          \<longrightarrow> findall (is_decimal W) (decode W bytes) = [(A0, B0)])"
proof -
  let ?M = "all_matches W (selected_files W)"
  let ?R = "map canonical ?M"
  note r = completed_run(2) [OF assms(1)]
  from assms(2,3) have m: "(A, B) \<in> set ?M"
    by (force simp: all_matches_def matches_of_def)
  then have 1: "(B, A) \<in> set (records_in_order W)"
    by (force simp: records_in_order_def canonical_def)
  have keys: "fst ` set ?R = snd ` set ?M"
    by (force simp: canonical_def)
  from m have "B \<in> fst ` set ?R" unfolding keys by force
  from upsert_touched [OF this, of "rows d"] obtain v
    where v: "(B, v) \<in> set ?R" and u: "upsert_one_by_one (rows d) ?R B = Some v"
    by blast
  from v have vm: "(v, B) \<in> set ?M" by (auto simp: canonical_def)
  have 2: "\<exists>A'. (A', B) \<in> set ?M \<and> rows (disk (snd (import_with batch_size W d))) B = Some A'"
    using vm u r by auto
  have 3: "rows (disk (snd (import_with batch_size W d))) B = Some A"
    if "\<forall>A'. (A', B) \<in> set ?M \<longrightarrow> A' = A"
    using that vm u r by auto
  have 4: "rows (disk (snd (import_with batch_size W d))) k = rows d k"
    if "k \<notin> snd ` set ?M" for k
    using that upsert_untouched [of k ?R "rows d"] r unfolding keys by simp
  have 5: "findall (is_decimal W) (decode W bytes) = [(A0, B0)]"
    if "\<not> is_decimal W hyphen" "digits (is_decimal W) A0" "digits (is_decimal W) B0"
      "decode W bytes = A0 @ hyphens @ B0"
    using that findall_single [of "is_decimal W" A0 B0] by simp
  from 1 2 3 4 5 show ?thesis by blast
qed

theorem matched_pair_is_stored_reversed_witness:
  "rows (disk (snd (parse_and_import_data single_world empty_db))) (cps ''9001'')
     = Some (cps ''5551234'')
   \<and> rows (disk (snd (parse_and_import_data single_world empty_db))) (cps ''5551234'') = None
   \<and> rows (disk (snd (parse_and_import_data single_world empty_db)))
     = [cps ''9001'' \<mapsto> cps ''5551234'']"
proof -
  let ?bytes = "ascii ''5551234----9001''"
  have e: "exit_status (fst (import_with 50000 single_world empty_db)) = 0"
    by (simp add: single_world_def run_defs world_defs)
  have s: "selected_files single_world = [(''qb_one.txt'', Readable ?bytes)]"
    by (simp add: single_world_def world_defs selected_files_def glob_qb_txt_def fnmatch_qb_txt_def)
  have f: "findall (is_decimal single_world) (decode single_world ?bytes)
      = [(cps ''5551234'', cps ''9001'')]"
    by (simp add: single_world_def world_defs match_at_def match_rest_def hyphens_def hyphen_def)
  have m: "all_matches single_world (selected_files single_world) = [(cps ''5551234'', cps ''9001'')]"
    by (simp add: s all_matches_def matches_of_def f)
  have a: "(''qb_one.txt'', Readable ?bytes) \<in> set (selected_files single_world)"
    by (simp add: s)
  have b: "(cps ''5551234'', cps ''9001'') \<in> set (findall (is_decimal single_world)
      (decode single_world ?bytes))"
    by (simp add: f)
  note t = matched_pair_is_stored_reversed [OF e a b]
  have u: "\<forall>A'. (A', cps ''9001'') \<in> set (all_matches single_world (selected_files single_world))
      \<longrightarrow> A' = cps ''5551234''"
    by (simp add: m)
  have k: "cps ''5551234'' \<notin> snd ` set (all_matches single_world (selected_files single_world))"
    by (simp add: m cps_def)
  from t u have "rows (disk (snd (import_with 50000 single_world empty_db))) (cps ''9001'')
     = Some (cps ''5551234'')"
    by blast
  moreover from t k
  have "rows (disk (snd (import_with 50000 single_world empty_db))) (cps ''5551234'')
      = rows empty_db (cps ''5551234'')"
    by blast
  moreover have "rows (disk (snd (import_with 50000 single_world empty_db)))
     = [cps ''9001'' \<mapsto> cps ''5551234'']"
    by (simp add: single_world_def run_defs world_defs)
  ultimately show ?thesis
    by (simp add: parse_and_import_data_def empty_db_def)
qed

section \<open>The store after a completed run\<close>

lemma example_records:
  "records_in_order example_world =
     [(cps ''9001'', cps ''5551234''), (cps ''9001'', cps ''5555678'')]"
  by (simp add: example_world_def two_lines_def spec_defs world_defs glob_qb_txt_def
        fnmatch_qb_txt_def match_at_def match_rest_def hyphens_def hyphen_def)

lemma example_exit:
  "exit_status (fst (import_with 50000 example_world empty_db)) = 0"
  by (simp add: example_world_def two_lines_def run_defs world_defs)

lemma fault_update_matches [simp]:
  "matches_of (W\<lparr>fault := f\<rparr>) x = matches_of W x"
  by (simp add: matches_of_def split: source_file.splits)

lemma fault_update_inputs [simp]:
  "selected_files (W\<lparr>fault := f\<rparr>) = selected_files W"
  "all_matches (W\<lparr>fault := f\<rparr>) files = all_matches W files"
  by (simp_all add: selected_files_def all_matches_def)

text \<open>
  C2. A run that completes leaves, for a key that occurs in the record sequence, the value
  of its last occurrence (file enumeration order, then order of appearance). The table
  is keyed by \<^verbatim>\<open>uid\<close>, so there is one row for the key. The instance below is the example of
  the specification: after the two lines \<^verbatim>\<open>5551234----9001\<close> and \<^verbatim>\<open>5555678----9001\<close>, an
  empty store holds the single row with key 9001 and value 5555678.
\<close>

theorem last_write_wins:
  assumes "exit_status (fst (import_with batch_size W d)) = 0"
    and "records_in_order W = earlier @ (uid, phone) # later"
    and "uid \<notin> fst ` set later"
  shows "rows (disk (snd (import_with batch_size W d))) uid = Some phone"
  using completed_run(2) [OF assms(1)] upsert_last_wins [OF assms(2,3)]
  by (simp add: records_in_order_def)

theorem last_write_wins_witness:
  "rows (disk (snd (parse_and_import_data example_world empty_db))) (cps ''9001'')
     = Some (cps ''5555678'')
   \<and> rows (disk (snd (parse_and_import_data example_world empty_db)))
     = [cps ''9001'' \<mapsto> cps ''5555678'']"
proof -
  have "rows (disk (snd (import_with 50000 example_world empty_db))) (cps ''9001'')
     = Some (cps ''5555678'')"
    by (rule last_write_wins [where earlier = "[(cps ''9001'', cps ''5551234'')]" and later = "[]"])
       (simp_all add: example_exit example_records)
  moreover have "rows (disk (snd (import_with 50000 example_world empty_db)))
     = [cps ''9001'' \<mapsto> cps ''5555678'']"
    by (simp add: example_world_def two_lines_def run_defs world_defs)
  ultimately show ?thesis
    by (simp add: parse_and_import_data_def)
qed

text \<open>
  C3. A second run over the same input files, started on the store that a first run left,
  leaves that store as it was: for every starting store, every set of input files and
  every threshold, when the storage engine behaves in the second run as in the first (in
  particular when it works in both). When it behaves otherwise in the second run
  (\<open>f\<close>), or the threshold is another one, the same holds provided both runs complete.
\<close>

theorem rerun_is_idempotent:
  "disk (snd (import_with batch_size W (disk (snd (import_with batch_size W d)))))
     = disk (snd (import_with batch_size W d))
   \<and> (exit_status (fst (import_with batch_size W d)) = 0
      \<and> exit_status (fst (import_with batch_size' (W\<lparr>fault := f\<rparr>)
           (disk (snd (import_with batch_size W d))))) = 0
      \<longrightarrow> disk (snd (import_with batch_size' (W\<lparr>fault := f\<rparr>)
           (disk (snd (import_with batch_size W d)))))
         = disk (snd (import_with batch_size W d)))"
proof -
  let ?d1 = "disk (snd (import_with batch_size W d))"
  let ?d2 = "disk (snd (import_with batch_size' (W\<lparr>fault := f\<rparr>) ?d1))"
  have "?d2 = ?d1"
    if one: "exit_status (fst (import_with batch_size W d)) = 0"
      and two: "exit_status (fst (import_with batch_size' (W\<lparr>fault := f\<rparr>) ?d1)) = 0"
  proof -
    note one = completed_run(2-4) [OF one]
    note two = completed_run(2-4) [OF two]
    have "rows ?d2 = rows ?d1"
      using two(1) one(1) by (simp add: upsert_twice)
    moreover have "has_table ?d2 = has_table ?d1" "has_index ?d2 = has_index ?d1"
      using one(2,3) two(2,3) by simp_all
    ultimately show ?thesis
      by (intro db.equality) simp_all
  qed
  with rerun_same_world [of batch_size W d] show ?thesis by blast
qed

theorem rerun_is_idempotent_witness:
  "disk (snd (import_with 50000 (example_world\<lparr>fault := no_faults\<rparr>)
           (disk (snd (import_with 50000 example_world empty_db)))))
     = disk (snd (import_with 50000 example_world empty_db))
   \<and> rows (disk (snd (import_with 50000 example_world empty_db)))
     = [cps ''9001'' \<mapsto> cps ''5555678'']"
proof -
  have "exit_status (fst (import_with 50000 (example_world\<lparr>fault := no_faults\<rparr>)
           (disk (snd (import_with 50000 example_world empty_db))))) = 0"
    by (simp add: example_world_def two_lines_def run_defs world_defs)
  with rerun_is_idempotent [of 50000 example_world empty_db 50000 no_faults] example_exit
  have "disk (snd (import_with 50000 (example_world\<lparr>fault := no_faults\<rparr>)
           (disk (snd (import_with 50000 example_world empty_db)))))
     = disk (snd (import_with 50000 example_world empty_db))"
    by blast
  moreover have "rows (disk (snd (import_with 50000 example_world empty_db)))
     = [cps ''9001'' \<mapsto> cps ''5555678'']"
    by (simp add: example_world_def two_lines_def run_defs world_defs)
  ultimately show ?thesis by blast
qed

text \<open>
  C4. When the storage engine works, the database file can be opened (there is a working
  directory) and every input file can be read, the run completes with any two thresholds
  \<open>b1\<close> and \<open>b2\<close>, the two stores are equal, and their rows are those of the unbatched
  pipeline on the same record sequence. In the instance below the first threshold is the
  number of records.
\<close>

theorem batch_size_is_not_observable:
  assumes "\<forall>n. \<not> fault W n"
    and "\<forall>e\<in>set (selected_files W). \<exists>bytes. snd e = Readable bytes"
    and "cwd W \<noteq> None"
  shows "exit_status (fst (import_with b1 W d)) = 0
    \<and> exit_status (fst (import_with b2 W d)) = 0
    \<and> disk (snd (import_with b1 W d)) = disk (snd (import_with b2 W d))
    \<and> rows (disk (snd (import_with b1 W d))) = upsert_one_by_one (rows d) (records_in_order W)"
proof -
  note e1 = run_completes [OF assms, of b1 d]
  note e2 = run_completes [OF assms, of b2 d]
  note one = completed_run(2-4) [OF e1]
  note two = completed_run(2-4) [OF e2]
  have "disk (snd (import_with b1 W d)) = disk (snd (import_with b2 W d))"
    using one two by (intro db.equality) simp_all
  with e1 e2 one(1) show ?thesis
    by (simp add: records_in_order_def)
qed

theorem batch_size_is_not_observable_witness:
  "exit_status (fst (import_with 2 example_world empty_db)) = 0
    \<and> exit_status (fst (import_with 50000 example_world empty_db)) = 0
    \<and> disk (snd (import_with 2 example_world empty_db))
        = disk (snd (import_with 50000 example_world empty_db))
    \<and> rows (disk (snd (import_with 2 example_world empty_db)))
        = upsert_one_by_one (rows empty_db) (records_in_order example_world)
    \<and> length (records_in_order example_world) = 2"
proof -
  have a: "\<forall>n. \<not> fault example_world n"
    by (simp add: example_world_def world_defs)
  have b: "\<forall>e\<in>set (selected_files example_world). \<exists>bytes. snd e = Readable bytes"
    by (simp add: example_world_def world_defs selected_files_def glob_qb_txt_def
          fnmatch_qb_txt_def)
  have c: "cwd example_world \<noteq> None"
    by (simp add: example_world_def world_defs)
  have l: "length (records_in_order example_world) = 2"
    by (simp add: example_records)
  from batch_size_is_not_observable [OF a b c, of 2 empty_db 50000] l show ?thesis
    by blast
qed

section \<open>A storage error\<close>

text \<open>
  C8. After every run the connection is not open and no transaction is left: the
  \<^verbatim>\<open>finally\<close> closes the connection when there is one, and with it drops a transaction
  that was not committed. When one of the calls that the run made to the storage engine
  raised, then
  \<^item> the run ended by \<^verbatim>\<open>sys.exit(1)\<close>, and the last line printed is the error report;
  \<^item> the call that raised is the last call made and the only one that raised: nothing
    was retried and nothing was written after it;
  \<^item> with a positive threshold, the store holds whole batches only, those committed
    before the call that raised, and nothing of the batch that was being written. Its
    rows are the starting rows with the first \<open>k * batch_size\<close> records of the run written
    over them, where \<open>k\<close> is the number of batches whose \<^verbatim>\<open>executemany\<close> and \<^verbatim>\<open>commit\<close>
    both came before the call that raised: calls 0 to 3 are the \<^verbatim>\<open>connect\<close> and the
    schema, so \<open>k\<close> is \<open>(calls - 5) div 2\<close>.

  In the instances below the threshold is 1 and the file holds two records. When the
  \<^verbatim>\<open>executemany\<close> of the second batch raises, the store holds the first record; when the
  \<^verbatim>\<open>commit\<close> of the first batch raises, the store holds nothing, although the batch had
  been handed to \<^verbatim>\<open>executemany\<close>.
\<close>

theorem storage_error_aborts_run:
  "conn (snd (import_with batch_size W d)) \<noteq> Open
   \<and> txn (snd (import_with batch_size W d)) = None
   \<and> ((\<exists>n<calls (snd (import_with batch_size W d)). raises W n) \<longrightarrow>
        fst (import_with batch_size W d) = SysExit 1
      \<and> exit_status (fst (import_with batch_size W d)) \<noteq> 0
      \<and> last (stdout (snd (import_with batch_size W d))) = SQLiteErrorMsg
      \<and> raises W (calls (snd (import_with batch_size W d)) - 1)
      \<and> (\<forall>n<calls (snd (import_with batch_size W d)) - 1. \<not> raises W n)
      \<and> (0 < batch_size \<longrightarrow>
           (calls (snd (import_with batch_size W d)) - 5) div 2 * batch_size
             \<le> length (records_in_order W)
         \<and> rows (disk (snd (import_with batch_size W d)))
             = upsert_one_by_one (rows d)
                 (take ((calls (snd (import_with batch_size W d)) - 5) div 2 * batch_size)
                    (records_in_order W))))"
proof (cases "cwd W = None")
  case True
  show ?thesis
    by (simp add: no_cwd_run [OF True] initial_def raises_def True)
next
  case False
  then have rs: "raises W n = fault W n" for n
    by (auto simp: raises_def)
  let ?s0 = "say Connecting (initial d)"
  obtain sig s where b: "try_body W batch_size ?s0 = (sig, s)"
    by (cases "try_body W batch_size ?s0")
  have r: "import_with batch_size W d = (fst (handlers (sig, s)), close (snd (handlers (sig, s))))"
    using b by (simp add: import_with_def split_def Let_def)
  have "clean W ?s0" by (simp add: clean_def initial_def)
  from tripleD [OF try_body_faults [OF False] this b] have f: "faults_seen W sig s" .
  have t0: "txn ?s0 = None" and c0: "calls ?s0 = 0"
    by (simp_all add: initial_def)
  from try_body_conn_or_txn [OF t0, of W batch_size] b
  have ct: "conn s = Open \<or> txn s = None" by simp
  have 1: "conn (snd (import_with batch_size W d)) \<noteq> Open"
    by (simp add: r)
  have 2: "txn (snd (import_with batch_size W d)) = None"
    using ct by (auto simp: r close_def)
  have 3: "fst (import_with batch_size W d) = SysExit 1
      \<and> exit_status (fst (import_with batch_size W d)) \<noteq> 0
      \<and> last (stdout (snd (import_with batch_size W d))) = SQLiteErrorMsg
      \<and> raises W (calls (snd (import_with batch_size W d)) - 1)
      \<and> (\<forall>n<calls (snd (import_with batch_size W d)) - 1. \<not> raises W n)
      \<and> (0 < batch_size \<longrightarrow>
           (calls (snd (import_with batch_size W d)) - 5) div 2 * batch_size
             \<le> length (records_in_order W)
         \<and> rows (disk (snd (import_with batch_size W d)))
             = upsert_one_by_one (rows d)
                 (take ((calls (snd (import_with batch_size W d)) - 5) div 2 * batch_size)
                    (records_in_order W)))"
    if "\<exists>n<calls (snd (import_with batch_size W d)). raises W n"
  proof -
    from that have "\<exists>n<calls s. fault W n" by (simp add: r rs)
    with f have sig: "sig = Raise SqliteError" and br: "broken W s"
      by (auto simp: faults_seen_def clean_def split: if_splits)
    from sig have h: "handlers (sig, s) = (SysExit 1, say SQLiteErrorMsg s)" by simp
    have a: "aborted batch_size d (records_in_order W) s" if "0 < batch_size"
      using try_body_aborted [OF that t0 c0 b [unfolded sig]] by (simp add: initial_def)
    from h br a show ?thesis by (simp add: r rs broken_def aborted_def)
  qed
  from 1 2 3 show ?thesis by blast
qed

theorem storage_error_aborts_run_witness:
  "fst (import_with 1 failing_world empty_db) = SysExit 1
   \<and> conn (snd (import_with 1 failing_world empty_db)) = Closed
   \<and> calls (snd (import_with 1 failing_world empty_db)) = 7
   \<and> last (stdout (snd (import_with 1 failing_world empty_db))) = SQLiteErrorMsg
   \<and> rows (disk (snd (import_with 1 failing_world empty_db))) = [cps ''9001'' \<mapsto> cps ''5551234'']
   \<and> fst (import_with 1 commit_failing_world empty_db) = SysExit 1
   \<and> calls (snd (import_with 1 commit_failing_world empty_db)) = 6
   \<and> rows (disk (snd (import_with 1 commit_failing_world empty_db))) = Map.empty"
proof -
  have c: "calls (snd (import_with 1 failing_world empty_db)) = 7"
    by (simp add: failing_world_def fault_at_def two_lines_def run_defs world_defs)
  have "\<exists>n<calls (snd (import_with 1 failing_world empty_db)). raises failing_world n"
    unfolding c by (rule exI [of _ 6]) (simp add: raises_def failing_world_def fault_at_def world_defs)
  with storage_error_aborts_run [of 1 failing_world empty_db]
  have 1: "fst (import_with 1 failing_world empty_db) = SysExit 1"
    and 2: "last (stdout (snd (import_with 1 failing_world empty_db))) = SQLiteErrorMsg"
    by blast+
  have 3: "conn (snd (import_with 1 failing_world empty_db)) = Closed"
    by (simp add: failing_world_def fault_at_def two_lines_def run_defs world_defs)
  have 4: "rows (disk (snd (import_with 1 failing_world empty_db)))
      = [cps ''9001'' \<mapsto> cps ''5551234'']"
    by (simp add: failing_world_def fault_at_def two_lines_def run_defs world_defs)
  have c': "calls (snd (import_with 1 commit_failing_world empty_db)) = 6"
    by (simp add: commit_failing_world_def fault_at_def two_lines_def run_defs world_defs)
  have e: "\<exists>n<calls (snd (import_with 1 commit_failing_world empty_db)). raises commit_failing_world n"
    unfolding c'
    by (rule exI [of _ 5]) (simp add: raises_def commit_failing_world_def fault_at_def world_defs)
  have p: "(0::nat) < 1" by simp
  from storage_error_aborts_run [of 1 commit_failing_world empty_db] e p
  have 5: "fst (import_with 1 commit_failing_world empty_db) = SysExit 1"
    and k: "rows (disk (snd (import_with 1 commit_failing_world empty_db)))
       = upsert_one_by_one (rows empty_db)
           (take ((calls (snd (import_with 1 commit_failing_world empty_db)) - 5) div 2 * 1)
              (records_in_order commit_failing_world))"
    by blast+
  have 6: "rows (disk (snd (import_with 1 commit_failing_world empty_db))) = Map.empty"
    unfolding k c' by (simp add: empty_db_def)
  from 1 2 3 4 5 6 c c' show ?thesis by blast
qed

section \<open>The batch buffer\<close>

lemma buffer_ok_Normal [simp]:
  "buffer_ok batch_size Normal = (\<lambda>s. length (batch_data s) < batch_size)"
  by (auto simp: buffer_ok_def fun_eq_iff)







section \<open>Files that cannot be decoded, files that cannot be read\<close>




section \<open>No input file\<close>

text \<open>
  C7. The working directory, which is the fallback of line 41, does not exist; this
  covers the case of the claim, where the configured directory does not exist either.
  The database file is opened in the working directory, so the \<^verbatim>\<open>connect\<close> of line 34
  raises \<^verbatim>\<open>sqlite3.Error\<close> before any \<^verbatim>\<open>glob\<close> is made: the handler of lines 76 to 78
  reports the error and the run ends by \<^verbatim>\<open>sys.exit(1)\<close>, with no connection made and the
  store as it was. The globs raise nothing on a directory that does not exist, so the
  line of the \<^verbatim>\<open>FileNotFoundError\<close> handler is not what is printed. The other case: when the
  working directory exists and neither glob matches a file (the configured directory
  is empty, or does not exist), and the store opens and takes the schema, the exit
  status is 0.
\<close>

theorem missing_directories_are_fatal:
  "(cwd W = None \<longrightarrow>
      fst (import_with batch_size W d) = SysExit 1
    \<and> exit_status (fst (import_with batch_size W d)) \<noteq> 0
    \<and> stdout (snd (import_with batch_size W d)) = [Connecting, SQLiteErrorMsg]
    \<and> conn (snd (import_with batch_size W d)) = NoConn
    \<and> disk (snd (import_with batch_size W d)) = d)
   \<and> (cwd W \<noteq> None \<and> glob_qb_txt (data_dir W) = [] \<and> glob_qb_txt (cwd W) = []
      \<and> \<not> fault W 0 \<and> \<not> fault W 1 \<and> \<not> fault W 2 \<and> \<not> fault W 3 \<longrightarrow>
      exit_status (fst (import_with batch_size W d)) = 0)"
proof -
  have "exit_status (fst (import_with batch_size W d)) = 0"
    if "cwd W \<noteq> None" "glob_qb_txt (data_dir W) = []" "glob_qb_txt (cwd W) = []"
      "\<not> fault W 0" "\<not> fault W (Suc 0)" "\<not> fault W (Suc (Suc 0))"
      "\<not> fault W (Suc (Suc (Suc 0)))"
    using that
    by (simp add: import_with_def try_body_def find_and_import_def and_then_def say_def print_def
          initial_def sqlite3_connect_def setup_database_def storage_call_def
          execute_create_table_def execute_create_index_def commit_def close_def)
  then show ?thesis
    by (simp add: no_cwd_run initial_def numeral_2_eq_2 numeral_3_eq_3)
qed

theorem missing_directories_are_fatal_witness:
  "fst (parse_and_import_data no_directory_world empty_db) = SysExit 1
   \<and> stdout (snd (parse_and_import_data no_directory_world empty_db))
       = [Connecting, SQLiteErrorMsg]
   \<and> disk (snd (parse_and_import_data no_directory_world empty_db)) = empty_db
   \<and> exit_status (fst (parse_and_import_data (world_of None (Some []) no_faults) empty_db)) = 0"
  using missing_directories_are_fatal [of no_directory_world 50000 empty_db]
    missing_directories_are_fatal [of "world_of None (Some []) no_faults" 50000 empty_db]
  by (simp add: parse_and_import_data_def no_directory_world_def world_defs glob_qb_txt_def)

text \<open>
  C6, as stated, at two directories that exist and are empty: the run exits with status
  0, and what it prints holds no total: the \<^verbatim>\<open>return\<close> of line 44 comes before the
  report of line 74.
\<close>

theorem no_files_total_not_reported:
  "exit_status (fst (parse_and_import_data (world_of (Some []) (Some []) no_faults) empty_db)) = 0
   \<and> stdout (snd (parse_and_import_data (world_of (Some []) (Some []) no_faults) empty_db))
     = [Connecting, SchemaCreated, NoFilesInDataDir, NoFilesInCwd]
   \<and> ImportComplete 0
     \<notin> set (stdout (snd (parse_and_import_data (world_of (Some []) (Some []) no_faults) empty_db)))"
  by (simp add: run_defs world_defs)

text \<open>
  C6, amended. When neither glob matches a file, the database file can be opened (there
  is a working directory) and the four calls that open the store and create its schema
  succeed, the run returns (exit status 0) with the connection closed, the table and the
  index created, the rows of the store as they were, no record counted, and the two
  warnings printed; no total is printed.
\<close>

theorem no_files_run:
  assumes "glob_qb_txt (data_dir W) = []" and "glob_qb_txt (cwd W) = []"
    and "\<not> fault W 0" and "\<not> fault W 1" and "\<not> fault W 2" and "\<not> fault W 3"
    and "cwd W \<noteq> None"
  shows "import_with batch_size W d =
     (Returned,
      \<lparr>disk = d\<lparr>has_table := True, has_index := True\<rparr>, txn = None, calls = 4,
       conn = Closed,
       stdout = [Connecting, SchemaCreated, NoFilesInDataDir, NoFilesInCwd],
       batch_data = [], total_records = 0\<rparr>)"
proof -
  have f: "\<not> fault W (Suc 0)" "\<not> fault W (Suc (Suc 0))" "\<not> fault W (Suc (Suc (Suc 0)))"
    using assms(4-6) by (simp_all add: numeral_2_eq_2 numeral_3_eq_3)
  show ?thesis
    using assms(1-3,7) f
    by (simp add: import_with_def try_body_def find_and_import_def and_then_def say_def print_def initial_def
          sqlite3_connect_def setup_database_def storage_call_def execute_create_table_def
          execute_create_index_def commit_def close_def)
qed

theorem no_files_run_witness:
  "import_with 50000 (world_of (Some [(''notes.txt'', Readable (ascii ''1----2''))]) (Some []) no_faults)
     empty_db =
     (Returned,
      \<lparr>disk = \<lparr>rows = Map.empty, has_table = True, has_index = True\<rparr>, txn = None, calls = 4,
       conn = Closed,
       stdout = [Connecting, SchemaCreated, NoFilesInDataDir, NoFilesInCwd],
       batch_data = [], total_records = 0\<rparr>)"
  using no_files_run [of "world_of (Some [(''notes.txt'', Readable (ascii ''1----2''))]) (Some []) no_faults"
      50000 empty_db]
  by (simp add: world_defs glob_qb_txt_def fnmatch_qb_txt_def)

end
